theory Spec2Isabelle
  imports Complex_Main "HOL-Library.Multiset"
begin

section \<open>Values\<close>

text \<open>
  The request body is JSON, parsed by Flask into Python values: a number is an \<open>int\<close> of
  any size or a \<open>float\<close>, and the parser also yields the floats nan and infinity. A JSON
  object is kept as the association list of the parsed dict.

  A Python float is a binary64 number: \<open>Fin x\<close> for a finite one, where \<open>x\<close> is its exact
  value, or one of the three special values. The sign of zero is not modelled.
\<close>

datatype pyfloat = Fin real | NaN | PosInf | NegInf

datatype json =
    JNull
  | JBool bool
  | JInt int
  | JFloat pyfloat
  | JStr string
  | JArr "json list"
  | JObj "(string \<times> json) list"

datatype exn = ValueError | TypeError | IndexError | AttributeError | OverflowError

section \<open>Binary64 arithmetic\<close>

text \<open>
  Rounding to the nearest binary64 number, ties to even. A real \<open>x\<close> other than zero lies
  in the binade of exponent \<open>expo x\<close>, never below the least normal exponent -1022; there
  the representable numbers are the multiples of \<open>2 ^ (expo x - 52)\<close>, and \<open>x\<close> is moved to
  the nearest one. A result of magnitude \<open>2 ^ 1024\<close> or more is an infinity.
\<close>

definition pow2 :: "int \<Rightarrow> real" where
  "pow2 n = (if 0 \<le> n then 2 ^ nat n else 1 / 2 ^ nat (- n))"

definition rne :: "real \<Rightarrow> int" where
  "rne x =
     (let f = \<lfloor>x\<rfloor>; d = x - of_int f
      in if d < 1 / 2 then f else if 1 / 2 < d then f + 1 else if even f then f else f + 1)"

definition expo :: "real \<Rightarrow> int" where
  "expo x = max \<lfloor>log 2 \<bar>x\<bar>\<rfloor> (- 1022)"

definition round_double :: "real \<Rightarrow> pyfloat" where
  "round_double x =
     (if x = 0 then Fin 0
      else
        (let u = pow2 (expo x - 52); y = of_int (rne (x / u)) * u
         in if 2 ^ 1024 \<le> \<bar>y\<bar> then (if 0 < x then PosInf else NegInf) else Fin y))"

text \<open>The rounded value before the check of its range.\<close>

definition rval :: "real \<Rightarrow> real" where
  "rval x = of_int (rne (x / pow2 (expo x - 52))) * pow2 (expo x - 52)"

definition is_double :: "real \<Rightarrow> bool" where
  "is_double x = (round_double x = Fin x)"

definition inf_of :: "bool \<Rightarrow> pyfloat" where
  "inf_of negative = (if negative then NegInf else PosInf)"

text \<open>The operations of the floats: the exact result, rounded.\<close>

fun fneg :: "pyfloat \<Rightarrow> pyfloat" where
  "fneg (Fin a) = Fin (- a)"
| "fneg NaN = NaN"
| "fneg PosInf = NegInf"
| "fneg NegInf = PosInf"

fun fadd :: "pyfloat \<Rightarrow> pyfloat \<Rightarrow> pyfloat" where
  "fadd (Fin a) (Fin b) = round_double (a + b)"
| "fadd NaN y = NaN"
| "fadd x NaN = NaN"
| "fadd PosInf NegInf = NaN"
| "fadd NegInf PosInf = NaN"
| "fadd PosInf y = PosInf"
| "fadd x PosInf = PosInf"
| "fadd NegInf y = NegInf"
| "fadd x NegInf = NegInf"

definition fsub :: "pyfloat \<Rightarrow> pyfloat \<Rightarrow> pyfloat" where
  "fsub x y = fadd x (fneg y)"

fun fmul :: "pyfloat \<Rightarrow> pyfloat \<Rightarrow> pyfloat" where
  "fmul (Fin a) (Fin b) = round_double (a * b)"
| "fmul NaN y = NaN"
| "fmul x NaN = NaN"
| "fmul (Fin a) PosInf = (if a = 0 then NaN else inf_of (a < 0))"
| "fmul (Fin a) NegInf = (if a = 0 then NaN else inf_of (0 < a))"
| "fmul PosInf (Fin b) = (if b = 0 then NaN else inf_of (b < 0))"
| "fmul NegInf (Fin b) = (if b = 0 then NaN else inf_of (0 < b))"
| "fmul PosInf PosInf = PosInf"
| "fmul PosInf NegInf = NegInf"
| "fmul NegInf PosInf = NegInf"
| "fmul NegInf NegInf = PosInf"

text \<open>A zero divisor counts as +0.0; the scorer divides by the number of points only.\<close>

fun fdiv :: "pyfloat \<Rightarrow> pyfloat \<Rightarrow> pyfloat" where
  "fdiv (Fin a) (Fin b) =
     (if b = 0 then (if a = 0 then NaN else inf_of (a < 0)) else round_double (a / b))"
| "fdiv NaN y = NaN"
| "fdiv x NaN = NaN"
| "fdiv (Fin a) y = Fin 0"
| "fdiv PosInf (Fin b) = inf_of (b < 0)"
| "fdiv NegInf (Fin b) = inf_of (0 \<le> b)"
| "fdiv x y = NaN"

text \<open>The comparison \<open>x <= y\<close> of two floats; it is false when one of them is nan.\<close>

fun fle :: "pyfloat \<Rightarrow> pyfloat \<Rightarrow> bool" where
  "fle (Fin a) (Fin b) = (a \<le> b)"
| "fle NaN y = False"
| "fle x NaN = False"
| "fle NegInf y = True"
| "fle x PosInf = True"
| "fle x y = False"

text \<open>The floats that are not negative: zero and above, infinity included.\<close>

definition fnn :: "pyfloat \<Rightarrow> bool" where
  "fnn w = fle (Fin 0) w"

text \<open>The float of the literal \<open>1.6\<close>, and the float of a Python int.\<close>

definition float_1_6 :: pyfloat where
  "float_1_6 = round_double 1.6"

definition float_of_int :: "int \<Rightarrow> exn + pyfloat" where
  "float_of_int i =
     (case round_double (of_int i) of Fin y \<Rightarrow> Inr (Fin y) | _ \<Rightarrow> Inl OverflowError)"

section \<open>numpy: array construction\<close>

text \<open>
  \<open>np.array(route, dtype=float)\<close>. The shape is discovered from the nesting of the
  lists: a list of \<open>n\<close> items of one common shape \<open>d\<close> has shape \<open>n # d\<close>, the empty list
  has shape \<open>[0]\<close>, everything that is not a list is a scalar of shape \<open>[]\<close>. Items of
  different shapes make the conversion raise ValueError (\<open>None\<close> here).
\<close>

fun common_shape :: "nat \<Rightarrow> nat list option list \<Rightarrow> nat list option" where
  "common_shape n [] = Some [n]"
| "common_shape n (None # ss) = None"
| "common_shape n (Some d # ss) = (if list_all (\<lambda>t. t = Some d) ss then Some (n # d) else None)"

fun np_shape :: "json \<Rightarrow> nat list option" where
  "np_shape (JArr xs) = common_shape (length xs) (map np_shape xs)"
| "np_shape _ = Some []"

text \<open>
  The conversion of one scalar to float: a float is itself, an int is rounded and raises
  OverflowError beyond the range of the floats, a bool is 1.0 or 0.0, None is nan, a str is
  parsed by Python's \<open>float\<close> (the parameter \<open>pf\<close>, \<open>None\<close> when it raises ValueError), a
  dict raises TypeError.
\<close>

fun to_float :: "(string \<Rightarrow> pyfloat option) \<Rightarrow> json \<Rightarrow> exn + pyfloat" where
  "to_float pf JNull = Inr NaN"
| "to_float pf (JBool b) = Inr (Fin (if b then 1 else 0))"
| "to_float pf (JInt i) = float_of_int i"
| "to_float pf (JFloat x) = Inr x"
| "to_float pf (JStr s) = (case pf s of None \<Rightarrow> Inl ValueError | Some v \<Rightarrow> Inr v)"
| "to_float pf (JArr xs) = Inl ValueError"
| "to_float pf (JObj kvs) = Inl TypeError"

text \<open>Concatenation of results, stopping at the first exception.\<close>

fun collect :: "(exn + 'a list) list \<Rightarrow> exn + 'a list" where
  "collect [] = Inr []"
| "collect (Inl e # rs) = Inl e"
| "collect (Inr xs # rs) = (case collect rs of Inl e \<Rightarrow> Inl e | Inr ys \<Rightarrow> Inr (xs @ ys))"

definition one_cell :: "exn + pyfloat \<Rightarrow> exn + pyfloat list" where
  "one_cell r = (case r of Inl e \<Rightarrow> Inl e | Inr x \<Rightarrow> Inr [x])"

text \<open>The cells of the array in row-major order.\<close>

fun np_flat :: "(string \<Rightarrow> pyfloat option) \<Rightarrow> json \<Rightarrow> exn + pyfloat list" where
  "np_flat pf (JArr xs) = collect (map (np_flat pf) xs)"
| "np_flat pf JNull = one_cell (to_float pf JNull)"
| "np_flat pf (JBool b) = one_cell (to_float pf (JBool b))"
| "np_flat pf (JInt i) = one_cell (to_float pf (JInt i))"
| "np_flat pf (JFloat x) = one_cell (to_float pf (JFloat x))"
| "np_flat pf (JStr s) = one_cell (to_float pf (JStr s))"
| "np_flat pf (JObj kvs) = one_cell (to_float pf (JObj kvs))"

record ndarray =
  shape :: "nat list"
  cells :: "pyfloat list"

definition ndim :: "ndarray \<Rightarrow> nat" where
  "ndim arr = length (shape arr)"

definition np_array_float :: "(string \<Rightarrow> pyfloat option) \<Rightarrow> json \<Rightarrow> exn + ndarray" where
  "np_array_float pf v =
     (case np_shape v of
        None \<Rightarrow> Inl ValueError
      | Some sh \<Rightarrow>
          (case np_flat pf v of
             Inl e \<Rightarrow> Inl e
           | Inr cs \<Rightarrow> Inr \<lparr>shape = sh, cells = cs\<rparr>))"

section \<open>The risk model\<close>

text \<open>
  The fitted pipeline of \<open>train_model.py\<close> (a StandardScaler followed by a
  KNeighborsRegressor) predicts row by row. It is the parameter \<open>m\<close>, from one row
  (lat, lon) to its intensity, a finite float given by its value; \<open>None\<close> when the pipeline
  rejects the row by raising. \<open>model_predict\<close> is \<open>model.predict(arr)\<close> on an array of two
  columns.
\<close>

fun rows2 :: "'a list \<Rightarrow> ('a \<times> 'a) list" where
  "rows2 (a # b # xs) = (a, b) # rows2 xs"
| "rows2 _ = []"

fun those_list :: "'a option list \<Rightarrow> 'a list option" where
  "those_list [] = Some []"
| "those_list (None # xs) = None"
| "those_list (Some y # xs) = (case those_list xs of None \<Rightarrow> None | Some ys \<Rightarrow> Some (y # ys))"

definition model_predict ::
  "(pyfloat \<times> pyfloat \<Rightarrow> real option) \<Rightarrow> (pyfloat \<times> pyfloat) list \<Rightarrow> exn + real list" where
  "model_predict m rs =
     (case those_list (map m rs) of None \<Rightarrow> Inl ValueError | Some ps \<Rightarrow> Inr ps)"

section \<open>numpy: percentile, where, mean\<close>

text \<open>
  The linear method of \<open>np.percentile(a, q)\<close> as numpy documents it, in exact arithmetic:
  on the sorted values \<open>s\<close> of \<open>n\<close> items the virtual index is \<open>h = q/100 * (n - 1)\<close>, and the
  result interpolates linearly between \<open>s[floor h]\<close> and its successor (the last item when
  there is none).
\<close>

definition percentile_linear :: "real \<Rightarrow> real list \<Rightarrow> real" where
  "percentile_linear q a =
     (let s = sort a;
          n = length a;
          h = q / 100 * real (n - 1);
          lo = nat \<lfloor>h\<rfloor>;
          hi = min (lo + 1) (n - 1)
      in s ! lo + (h - real lo) * (s ! hi - s ! lo))"

definition np_percentile :: "real list \<Rightarrow> real \<Rightarrow> exn + real" where
  "np_percentile a q = (if a = [] then Inl IndexError else Inr (percentile_linear q a))"

text \<open>
  The same method as numpy evaluates it on floats. The interpolation of \<open>a\<close> and \<open>b\<close> with
  weight \<open>t\<close> is \<open>a + (b - a) * t\<close>, replaced by \<open>b - (b - a) * (1 - t)\<close> when \<open>t >= 0.5\<close>.
  The virtual index is \<open>(n - 1) * (q / 100)\<close>; at or beyond the last index both neighbours
  are the last item, the index -1, and the weight is still the virtual index minus that
  index.
\<close>

definition lerp :: "pyfloat \<Rightarrow> pyfloat \<Rightarrow> pyfloat \<Rightarrow> pyfloat" where
  "lerp a b t =
     (let diff_b_a = fsub b a;
          lerp_interpolation = fadd a (fmul diff_b_a t)
      in if fle (Fin (1 / 2)) t then fsub b (fmul diff_b_a (fsub (Fin 1) t))
         else lerp_interpolation)"

definition virtual_index :: "nat \<Rightarrow> real \<Rightarrow> pyfloat" where
  "virtual_index n q = fmul (round_double (real (n - 1))) (fdiv (round_double q) (Fin 100))"

definition quantile_f64 :: "real \<Rightarrow> real list \<Rightarrow> pyfloat" where
  "quantile_f64 q a =
     (let s = sort a;
          n = length a;
          h = virtual_index n q
      in case h of
           Fin hv \<Rightarrow>
             if real (n - 1) \<le> hv then lerp (Fin (last s)) (Fin (last s)) (fsub h (Fin (- 1)))
             else
               (let lo = nat \<lfloor>hv\<rfloor>
                in lerp (Fin (s ! lo)) (Fin (s ! (lo + 1))) (fsub h (Fin (real lo))))
         | _ \<Rightarrow> NaN)"

definition np_percentile_f64 :: "real list \<Rightarrow> real \<Rightarrow> exn + pyfloat" where
  "np_percentile_f64 a q = (if a = [] then Inl IndexError else Inr (quantile_f64 q a))"

fun np_where :: "bool list \<Rightarrow> pyfloat list \<Rightarrow> pyfloat list \<Rightarrow> pyfloat list" where
  "np_where (c # cs) (x # xs) (y # ys) = (if c then x else y) # np_where cs xs ys"
| "np_where _ _ _ = []"

text \<open>
  The sum of a float array is numpy's pairwise summation, added to the identity 0.0. Fewer
  than 8 items are added from left to right. Up to 128 items are added into 8 accumulators,
  item \<open>i\<close> into accumulator \<open>i mod 8\<close>, as long as a whole block of 8 is left; the
  accumulators are then added in pairs and the rest of the items one by one. More than 128
  items are split at half the length, rounded down to a multiple of 8.
\<close>

fun add_block :: "pyfloat list \<Rightarrow> pyfloat list \<Rightarrow> pyfloat list" where
  "add_block (r # rs) (x # xs) = fadd r x # add_block rs xs"
| "add_block _ _ = []"

function unrolled :: "pyfloat list \<Rightarrow> pyfloat list \<Rightarrow> pyfloat list \<times> pyfloat list" where
  "unrolled r rest =
     (if length rest < 8 then (r, rest)
      else unrolled (add_block r (take 8 rest)) (drop 8 rest))"
  by pat_completeness auto
termination
  by (relation "measure (\<lambda>(r, rest). length rest)") auto

definition add_pairs :: "pyfloat list \<Rightarrow> pyfloat" where
  "add_pairs r =
     fadd (fadd (fadd (r ! 0) (r ! 1)) (fadd (r ! 2) (r ! 3)))
          (fadd (fadd (r ! 4) (r ! 5)) (fadd (r ! 6) (r ! 7)))"

function pairwise_sum :: "pyfloat list \<Rightarrow> pyfloat" where
  "pairwise_sum a =
     (if length a < 8 then foldl fadd (Fin 0) a
      else if length a \<le> 128 then
        (case unrolled (take 8 a) (drop 8 a) of (r, rest) \<Rightarrow> foldl fadd (add_pairs r) rest)
      else
        (let n2 = length a div 2 - (length a div 2) mod 8
         in fadd (pairwise_sum (take n2 a)) (pairwise_sum (drop n2 a))))"
  by pat_completeness auto
termination
  by (relation "measure length") auto

definition np_sum :: "pyfloat list \<Rightarrow> pyfloat" where
  "np_sum xs = fadd (Fin 0) (pairwise_sum xs)"

text \<open>\<open>np.mean\<close>: the sum divided by the count.\<close>

definition np_mean :: "pyfloat list \<Rightarrow> pyfloat" where
  "np_mean xs = fdiv (np_sum xs) (round_double (real (length xs)))"

section \<open>The route scorer\<close>

text \<open>
  Lines 70 to 75 of \<open>score_route\<close>: the conversion of the route, the check of its shape
  and the prediction.
\<close>

definition predict_route ::
  "(string \<Rightarrow> pyfloat option) \<Rightarrow> (pyfloat \<times> pyfloat \<Rightarrow> real option) \<Rightarrow> json \<Rightarrow> exn + real list" where
  "predict_route pf m route =
     (case np_array_float pf route of
        Inl e \<Rightarrow> Inl e
      | Inr arr \<Rightarrow>
          if ndim arr \<noteq> 2 then Inl ValueError
          else if shape arr ! 1 \<noteq> 2 then Inl ValueError
          else model_predict m (rows2 (cells arr)))"

text \<open>Lines 78 to 82: the penalty on the top values and the average.\<close>

definition penalized_mean :: "real list \<Rightarrow> exn + pyfloat" where
  "penalized_mean preds =
     (case np_percentile_f64 preds 85 of
        Inl e \<Rightarrow> Inl e
      | Inr p85 \<Rightarrow>
          (let penalized =
                 np_where (map (\<lambda>x. fle p85 (Fin x)) preds)
                   (map (\<lambda>x. fmul (Fin x) float_1_6) preds) (map Fin preds)
           in Inr (np_mean penalized)))"

text \<open>The body of the loop: the \<open>try\<close> block, and the \<open>except\<close> that scores infinity.\<close>

definition try_score ::
  "(string \<Rightarrow> pyfloat option) \<Rightarrow> (pyfloat \<times> pyfloat \<Rightarrow> real option) \<Rightarrow> json \<Rightarrow> exn + pyfloat" where
  "try_score pf m route =
     (case predict_route pf m route of
        Inl e \<Rightarrow> Inl e
      | Inr preds \<Rightarrow> penalized_mean preds)"

definition score_one ::
  "(string \<Rightarrow> pyfloat option) \<Rightarrow> (pyfloat \<times> pyfloat \<Rightarrow> real option) \<Rightarrow> json \<Rightarrow> pyfloat" where
  "score_one pf m route =
     (case try_score pf m route of Inl e \<Rightarrow> PosInf | Inr s \<Rightarrow> s)"

text \<open>The loop over the batch, appending one score per route to \<open>scores\<close>.\<close>

fun score_loop ::
  "(string \<Rightarrow> pyfloat option) \<Rightarrow> (pyfloat \<times> pyfloat \<Rightarrow> real option) \<Rightarrow> json list \<Rightarrow>
   pyfloat list \<Rightarrow> pyfloat list" where
  "score_loop pf m [] scores = scores"
| "score_loop pf m (route # rest) scores = score_loop pf m rest (scores @ [score_one pf m route])"

definition score_batch ::
  "(string \<Rightarrow> pyfloat option) \<Rightarrow> (pyfloat \<times> pyfloat \<Rightarrow> real option) \<Rightarrow> json list \<Rightarrow> pyfloat list" where
  "score_batch pf m routes = score_loop pf m routes []"

section \<open>The endpoint\<close>

text \<open>Python's truth value of a parsed JSON value.\<close>

fun truthy :: "json \<Rightarrow> bool" where
  "truthy JNull = False"
| "truthy (JBool b) = b"
| "truthy (JInt i) = (i \<noteq> 0)"
| "truthy (JFloat x) = (x \<noteq> Fin 0)"
| "truthy (JStr s) = (s \<noteq> [])"
| "truthy (JArr xs) = (xs \<noteq> [])"
| "truthy (JObj kvs) = (kvs \<noteq> [])"

text \<open>\<open>data.get(key)\<close>: None for a missing key, AttributeError when \<open>data\<close> is no dict.\<close>

fun dict_get :: "json \<Rightarrow> string \<Rightarrow> exn + json" where
  "dict_get (JObj kvs) k = Inr (case map_of kvs k of None \<Rightarrow> JNull | Some v \<Rightarrow> v)"
| "dict_get _ k = Inl AttributeError"

datatype body = Scores "pyfloat list" | Error string

datatype outcome = Response nat body | Unhandled exn

text \<open>
  \<open>score_route\<close>, on the result of \<open>request.get_json(silent=True)\<close> (\<open>None\<close> when the body
  does not parse).
\<close>

definition score_route ::
  "(string \<Rightarrow> pyfloat option) \<Rightarrow> (pyfloat \<times> pyfloat \<Rightarrow> real option) \<Rightarrow> json option \<Rightarrow> outcome" where
  "score_route pf m request_json =
     (case request_json of
        None \<Rightarrow> Response 400 (Error ''Invalid JSON'')
      | Some data \<Rightarrow>
          if \<not> truthy data then Response 400 (Error ''Invalid JSON'')
          else
            (case dict_get data ''routes'' of
               Inl e \<Rightarrow> Unhandled e
             | Inr routes \<Rightarrow>
                 if \<not> truthy routes then Response 400 (Error ''Missing 'routes' list'')
                 else
                   (case routes of
                      JArr rs \<Rightarrow> Response 200 (Scores (score_batch pf m rs))
                    | _ \<Rightarrow> Response 400 (Error ''Missing 'routes' list''))))"

section \<open>Notions used by the properties\<close>

text \<open>
  One row of a route as the conversion sees it: a list of exactly two scalars that both
  convert to float.
\<close>

fun row_of :: "(string \<Rightarrow> pyfloat option) \<Rightarrow> json \<Rightarrow> (pyfloat \<times> pyfloat) option" where
  "row_of pf (JArr [a, b]) =
     (case to_float pf a of
        Inl e \<Rightarrow> None
      | Inr x \<Rightarrow> (case to_float pf b of Inl e \<Rightarrow> None | Inr y \<Rightarrow> Some (x, y)))"
| "row_of pf _ = None"

text \<open>The cells of an array of two columns, from its rows.\<close>

definition flat_rows :: "('a \<times> 'a) list \<Rightarrow> 'a list" where
  "flat_rows prs = concat (map (\<lambda>(x, y). [x, y]) prs)"

text \<open>
  A route the conversion and the shape check accept: a non-empty list of rows.
\<close>

definition well_formed :: "(string \<Rightarrow> pyfloat option) \<Rightarrow> json \<Rightarrow> bool" where
  "well_formed pf route =
     (case route of
        JArr rs \<Rightarrow> rs \<noteq> [] \<and> list_all (\<lambda>r. row_of pf r \<noteq> None) rs
      | _ \<Rightarrow> False)"

text \<open>
  A valid route in the words of the specification: a non-empty sequence of numeric
  [lat, lon] pairs. \<open>number_value\<close> is the float of a number, when it has one.
\<close>

fun is_number :: "json \<Rightarrow> bool" where
  "is_number (JInt i) = True"
| "is_number (JFloat x) = True"
| "is_number _ = False"

fun numeric_pair :: "json \<Rightarrow> bool" where
  "numeric_pair (JArr [a, b]) = (is_number a \<and> is_number b)"
| "numeric_pair _ = False"

definition numeric_route :: "json \<Rightarrow> bool" where
  "numeric_route route =
     (case route of JArr rs \<Rightarrow> rs \<noteq> [] \<and> list_all numeric_pair rs | _ \<Rightarrow> False)"



text \<open>
  The score of the specification: the arithmetic mean of the predictions after every one
  that reaches the 85th percentile is multiplied by 1.6, in the arithmetic of the floats.
\<close>

definition amplify :: "pyfloat \<Rightarrow> real \<Rightarrow> pyfloat" where
  "amplify threshold x = (if fle threshold (Fin x) then fmul (Fin x) float_1_6 else Fin x)"

definition penalized :: "real list \<Rightarrow> pyfloat list" where
  "penalized P = map (amplify (quantile_f64 85 P)) P"

definition spec_route_score :: "real list \<Rightarrow> pyfloat" where
  "spec_route_score P = np_mean (penalized P)"

text \<open>The predictions all multiplied by 1.6.\<close>

definition all_amplified :: "real list \<Rightarrow> pyfloat list" where
  "all_amplified P = map (\<lambda>x. fmul (Fin x) float_1_6) P"

text \<open>
  Collaborators for concrete runs: a model that is constant, one that tells the fifth
  latitude from the others, one that predicts \<open>2 ^ 53\<close> away from the latitudes 1 and 2,
  and a \<open>float\<close> that parses no string.
\<close>

definition const_model :: "real \<Rightarrow> pyfloat \<times> pyfloat \<Rightarrow> real option" where
  "const_model v row = Some v"

definition lat_model :: "pyfloat \<times> pyfloat \<Rightarrow> real option" where
  "lat_model row = (case fst row of Fin lat \<Rightarrow> Some (if lat = 5 then 10 else 1) | _ \<Rightarrow> None)"


definition no_parse :: "string \<Rightarrow> pyfloat option" where
  "no_parse s = None"

section \<open>Facts about rounding\<close>

lemma pow2_powr: "pow2 n = 2 powr of_int n"
  by (simp add: pow2_def powr_real_of_int inverse_eq_divide)

lemma pow2_pos [simp]: "0 < pow2 n"
  by (simp add: pow2_powr)

lemma pow2_nonneg [simp]: "0 \<le> pow2 n"
  using pow2_pos [of n] by linarith

lemma pow2_abs [simp]: "\<bar>pow2 n\<bar> = pow2 n"
  using pow2_pos [of n] by linarith

lemma pow2_nonzero [simp]: "pow2 n \<noteq> 0"
  using pow2_pos [of n] by linarith

lemma pow2_mono: "a \<le> b \<Longrightarrow> pow2 a \<le> pow2 b"
  by (simp add: pow2_powr)

lemma pow2_strict_mono: "a < b \<Longrightarrow> pow2 a < pow2 b"
  by (simp add: pow2_powr)

lemma pow2_add: "pow2 (a + b) = pow2 a * pow2 b"
  by (simp add: pow2_powr powr_add)

lemma rne_of_int [simp]: "rne (of_int k) = k"
  by (simp add: rne_def)

lemma expo_eval:
  assumes "pow2 e \<le> \<bar>x\<bar>" and "\<bar>x\<bar> < pow2 (e + 1)" and "- 1022 \<le> e"
  shows "expo x = e"
proof -
  have pos: "0 < \<bar>x\<bar>"
    using assms(1) pow2_pos [of e] by linarith
  have "\<lfloor>log 2 \<bar>x\<bar>\<rfloor> = e"
    using assms(1,2) pos by (simp add: floor_log_eq_powr_iff pow2_powr)
  with assms(3) show ?thesis
    by (simp add: expo_def)
qed

lemma expo_subnormal:
  assumes "x \<noteq> 0" and "\<bar>x\<bar> < pow2 (- 1022)"
  shows "expo x = - 1022"
proof -
  have pos: "0 < \<bar>x\<bar>" using assms(1) by simp
  have "log 2 \<bar>x\<bar> < - 1022"
    using assms(2) pos by (simp add: log_less_iff pow2_powr)
  then have "\<lfloor>log 2 \<bar>x\<bar>\<rfloor> \<le> - 1022"
    by linarith
  then show ?thesis by (simp add: expo_def)
qed

lemma rne_near:
  assumes "\<bar>x - of_int k\<bar> < 1 / 2"
  shows "rne x = k"
proof -
  from assms have lo: "of_int k - 1 / 2 < x" and hi: "x < of_int k + 1 / 2"
    by linarith+
  have "\<lfloor>x\<rfloor> = k \<or> \<lfloor>x\<rfloor> = k - 1"
  proof (cases "of_int k \<le> x")
    case True
    with hi have "\<lfloor>x\<rfloor> = k" by (intro floor_unique) auto
    then show ?thesis ..
  next
    case False
    with lo have "\<lfloor>x\<rfloor> = k - 1" by (intro floor_unique) auto
    then show ?thesis ..
  qed
  then show ?thesis
  proof
    assume f: "\<lfloor>x\<rfloor> = k"
    from hi have "x - of_int k < 1 / 2" by linarith
    with f show ?thesis by (simp add: rne_def)
  next
    assume f: "\<lfloor>x\<rfloor> = k - 1"
    from lo have "1 / 2 < x - of_int (k - 1)" by simp
    with f show ?thesis by (simp add: rne_def Let_def)
  qed
qed

lemma round_double_near:
  assumes "pow2 e \<le> \<bar>x\<bar>" and "\<bar>x\<bar> < pow2 (e + 1)" and "- 1022 \<le> e"
    and "\<bar>x / pow2 (e - 52) - of_int k\<bar> < 1 / 2"
    and "y = of_int k * pow2 (e - 52)" and "\<bar>y\<bar> < 2 ^ 1024"
  shows "round_double x = Fin y"
proof -
  have e: "expo x = e"
    using assms(1-3) by (rule expo_eval)
  have "x \<noteq> 0"
  proof
    assume "x = 0"
    with assms(1) have "pow2 e \<le> 0" by simp
    with pow2_pos [of e] show False by linarith
  qed
  moreover have "rne (x / pow2 (e - 52)) = k"
    using assms(4) by (rule rne_near)
  ultimately show ?thesis
    using assms(5,6) by (simp add: round_double_def e Let_def)
qed

lemma rne_cases: "rne x = \<lfloor>x\<rfloor> \<or> rne x = \<lfloor>x\<rfloor> + 1"
  by (simp add: rne_def Let_def)

lemma rne_mono:
  assumes "x \<le> y"
  shows "rne x \<le> rne y"
proof (cases "\<lfloor>x\<rfloor> < \<lfloor>y\<rfloor>")
  case True
  moreover have "rne x \<le> \<lfloor>x\<rfloor> + 1" "\<lfloor>y\<rfloor> \<le> rne y"
    using rne_cases [of x] rne_cases [of y] by auto
  ultimately show ?thesis by linarith
next
  case False
  with assms have f: "\<lfloor>x\<rfloor> = \<lfloor>y\<rfloor>"
    using floor_mono [of x y] by linarith
  with assms have "x - of_int \<lfloor>x\<rfloor> \<le> y - of_int \<lfloor>y\<rfloor>"
    by simp
  then show ?thesis
    unfolding rne_def Let_def f by (auto split: if_splits)
qed

lemma rne_ge: "of_int k \<le> x \<Longrightarrow> k \<le> rne x"
  using rne_mono [of "of_int k" x] by simp

lemma rne_le: "x \<le> of_int k \<Longrightarrow> rne x \<le> k"
  using rne_mono [of x "of_int k"] by simp

lemma expo_ge:
  assumes "pow2 e \<le> \<bar>x\<bar>"
  shows "e \<le> expo x"
proof -
  have pos: "0 < \<bar>x\<bar>"
    using assms pow2_pos [of e] by linarith
  then have "of_int e \<le> log 2 \<bar>x\<bar>"
    using assms by (simp add: le_log_iff pow2_powr)
  then have "e \<le> \<lfloor>log 2 \<bar>x\<bar>\<rfloor>"
    by (simp add: le_floor_iff)
  then show ?thesis by (simp add: expo_def)
qed

lemma expo_le:
  assumes "x \<noteq> 0" and "\<bar>x\<bar> < pow2 (e + 1)" and "- 1022 \<le> e"
  shows "expo x \<le> e"
proof -
  have pos: "0 < \<bar>x\<bar>" using assms(1) by simp
  then have "log 2 \<bar>x\<bar> < of_int (e + 1)"
    using assms(2) by (simp add: log_less_iff pow2_powr)
  then have "\<lfloor>log 2 \<bar>x\<bar>\<rfloor> < e + 1"
    by linarith
  with assms(3) show ?thesis by (simp add: expo_def)
qed

lemma expo_lower: "- 1022 \<le> expo x"
  by (simp add: expo_def)

lemma expo_upper:
  assumes "x \<noteq> 0"
  shows "\<bar>x\<bar> < pow2 (expo x + 1)"
proof -
  have pos: "0 < \<bar>x\<bar>" using assms by simp
  have "log 2 \<bar>x\<bar> < of_int (\<lfloor>log 2 \<bar>x\<bar>\<rfloor> + 1)"
    by linarith
  also have "\<dots> \<le> of_int (expo x + 1)"
    by (simp add: expo_def)
  finally have "log 2 \<bar>x\<bar> < of_int (expo x + 1)" .
  with pos show ?thesis
    by (simp add: log_less_iff pow2_powr)
qed

lemma expo_normal:
  assumes "x \<noteq> 0" and "expo x \<noteq> - 1022"
  shows "pow2 (expo x) \<le> \<bar>x\<bar>"
proof -
  have pos: "0 < \<bar>x\<bar>" using assms(1) by simp
  from assms(2) have "expo x = \<lfloor>log 2 \<bar>x\<bar>\<rfloor>"
    by (simp add: expo_def max_def split: if_splits)
  then have "of_int (expo x) \<le> log 2 \<bar>x\<bar>"
    by simp
  with pos show ?thesis
    by (simp add: le_log_iff pow2_powr)
qed

lemma pow2_shift: "pow2 (a + int n) = pow2 a * 2 ^ n"
proof -
  have "pow2 (int n) = 2 ^ n" by (simp add: pow2_def)
  then show ?thesis by (simp add: pow2_add)
qed

lemma pow2_split: "pow2 (e + 1) = pow2 (e - 52) * 2 ^ 53"
  using pow2_shift [of "e - 52" 53] by (simp add: add.commute)

lemma pow2_split': "pow2 e = pow2 (e - 52) * 2 ^ 52"
  using pow2_shift [of "e - 52" 52] by simp

lemma rne_abs_le:
  assumes "0 < u" and "\<bar>x\<bar> < u * of_int K"
  shows "\<bar>rne (x / u)\<bar> \<le> K"
proof -
  from assms have "x < u * of_int K" "- (u * of_int K) < x"
    by linarith+
  with assms(1) have "x / u \<le> of_int K" "of_int (- K) \<le> x / u"
    by (simp_all add: field_simps)
  then have "rne (x / u) \<le> K" "- K \<le> rne (x / u)"
    by (auto intro: rne_le rne_ge)
  then show ?thesis by linarith
qed

lemma rne_abs_ge:
  assumes "0 < u" and "u * of_int K \<le> \<bar>x\<bar>"
  shows "K \<le> \<bar>rne (x / u)\<bar>"
proof (cases "0 \<le> x")
  case True
  with assms have "of_int K \<le> x / u"
    by (simp add: field_simps)
  then have "K \<le> rne (x / u)" by (rule rne_ge)
  then show ?thesis by linarith
next
  case False
  with assms have "x / u \<le> of_int (- K)"
    by (simp add: field_simps)
  then have "rne (x / u) \<le> - K" by (rule rne_le)
  then show ?thesis by linarith
qed

lemma mant_upper:
  assumes "x \<noteq> 0"
  shows "\<bar>rne (x / pow2 (expo x - 52))\<bar> \<le> 2 ^ 53"
  using rne_abs_le [of "pow2 (expo x - 52)" x "2 ^ 53"] expo_upper [OF assms]
  by (simp add: pow2_split)

lemma mant_lower:
  assumes "pow2 (expo x) \<le> \<bar>x\<bar>"
  shows "2 ^ 52 \<le> \<bar>rne (x / pow2 (expo x - 52))\<bar>"
  using rne_abs_ge [of "pow2 (expo x - 52)" "2 ^ 52" x] assms pow2_split' [of "expo x"]
  by simp

lemma round_double_fixed:
  assumes "y = of_int k * pow2 (expo y - 52)" and "\<bar>y\<bar> < 2 ^ 1024"
  shows "round_double y = Fin y"
proof (cases "y = 0")
  case True
  then show ?thesis by (simp add: round_double_def)
next
  case False
  have "0 < pow2 (expo y - 52)" by simp
  then have "y / pow2 (expo y - 52) = of_int k"
    by (subst assms(1)) simp
  then have "rne (y / pow2 (expo y - 52)) = k"
    by simp
  with assms False show ?thesis
    by (simp add: round_double_def Let_def)
qed

lemma round_double_idem:
  assumes "round_double x = Fin y"
  shows "round_double y = Fin y"
proof (cases "x = 0 \<or> y = 0")
  case True
  with assms show ?thesis
    by (auto simp: round_double_def)
next
  case False
  then have x0: "x \<noteq> 0" and y0: "y \<noteq> 0" by auto
  let ?e = "expo x"
  let ?u = "pow2 (?e - 52)"
  let ?k = "rne (x / ?u)"
  from assms x0 have y: "y = of_int ?k * ?u" and fin: "\<bar>y\<bar> < 2 ^ 1024"
    by (auto simp: round_double_def Let_def split: if_splits)
  have kb: "\<bar>?k\<bar> \<le> 2 ^ 53"
    using x0 by (rule mant_upper)
  have ya: "\<bar>y\<bar> = of_int \<bar>?k\<bar> * ?u"
    by (simp add: y abs_mult)
  show ?thesis
  proof (cases "\<bar>?k\<bar> = 2 ^ 53")
    case True
    then have "\<bar>y\<bar> = pow2 (?e + 1)"
      by (simp add: ya pow2_split)
    moreover have "pow2 (?e + 1) < pow2 (?e + 1 + 1)"
      using pow2_shift [of "?e + 1" 1] by simp
    ultimately have "expo y = ?e + 1"
      using expo_lower [of x] by (intro expo_eval) auto
    moreover have "pow2 (?e + 1 - 52) = ?u * 2"
      using pow2_shift [of "?e - 52" 1] by (simp add: algebra_simps)
    moreover from True have "?k = 2 ^ 53 \<or> ?k = - (2 ^ 53)"
      by linarith
    then have "even ?k" by auto
    then have "?k = 2 * (?k div 2)"
      by simp
    then have "of_int ?k = 2 * real_of_int (?k div 2)"
      by (metis of_int_mult of_int_numeral)
    ultimately have "y = of_int (?k div 2) * pow2 (expo y - 52)"
      by (simp add: y)
    then show ?thesis using fin by (rule round_double_fixed)
  next
    case False
    with kb have "\<bar>?k\<bar> < 2 ^ 53" by linarith
    then have "real_of_int \<bar>?k\<bar> < 2 ^ 53"
      by (metis of_int_less_iff of_int_numeral of_int_power)
    then have "\<bar>y\<bar> < pow2 (?e + 1)"
      by (simp add: ya pow2_split mult.commute)
    with y0 have le: "expo y \<le> ?e"
      using expo_lower [of x] by (intro expo_le) auto
    have ge: "?e \<le> expo y"
    proof (cases "?e = - 1022")
      case True
      then show ?thesis using expo_lower [of y] by simp
    next
      case False
      with x0 have n: "pow2 ?e \<le> \<bar>x\<bar>" by (rule expo_normal)
      then have "2 ^ 52 \<le> \<bar>?k\<bar>" by (rule mant_lower)
      then have "(2 :: real) ^ 52 \<le> real_of_int \<bar>?k\<bar>"
        by (metis of_int_le_iff of_int_numeral of_int_power)
      then have "pow2 ?e \<le> \<bar>y\<bar>"
        by (simp add: ya pow2_split' [of ?e] mult.commute)
      then show ?thesis by (rule expo_ge)
    qed
    from le ge have "expo y = ?e" by simp
    with y have "y = of_int ?k * pow2 (expo y - 52)" by simp
    then show ?thesis using fin by (rule round_double_fixed)
  qed
qed

lemma round_double_eval:
  assumes "pow2 e \<le> \<bar>x\<bar>" and "\<bar>x\<bar> < pow2 (e + 1)" and "- 1022 \<le> e"
    and "rne (x / pow2 (e - 52)) = k"
    and "y = of_int k * pow2 (e - 52)" and "\<bar>y\<bar> < 2 ^ 1024"
  shows "round_double x = Fin y"
proof -
  have e: "expo x = e"
    using assms(1-3) by (rule expo_eval)
  have "x \<noteq> 0"
  proof
    assume "x = 0"
    with assms(1) have "pow2 e \<le> 0" by simp
    with pow2_pos [of e] show False by linarith
  qed
  then show ?thesis
    using assms(4-6) by (simp add: round_double_def e Let_def)
qed

section \<open>The conversion of a route\<close>

lemma common_shape_Some:
  "common_shape n ss = Some sh \<longleftrightarrow>
     (ss = [] \<and> sh = [n]) \<or> (\<exists>d. ss \<noteq> [] \<and> sh = n # d \<and> (\<forall>s\<in>set ss. s = Some d))"
  by (cases "(n, ss)" rule: common_shape.cases) (auto simp: list_all_iff)

lemma np_shape_scalar: "np_shape v = Some [] \<longleftrightarrow> (\<forall>xs. v \<noteq> JArr xs)"
  by (cases v) (auto simp: common_shape_Some)

lemma to_float_scalar: "to_float pf v = Inr x \<Longrightarrow> np_shape v = Some []"
  by (cases v) auto

lemma np_flat_scalar:
  "np_shape v = Some [] \<Longrightarrow>
   np_flat pf v = (case to_float pf v of Inl e \<Rightarrow> Inl e | Inr x \<Rightarrow> Inr [x])"
  by (cases v) (auto simp: common_shape_Some one_cell_def split: option.splits)

lemma np_shape_pair:
  assumes "np_shape r = Some [2]"
  shows "\<exists>a b. r = JArr [a, b] \<and> np_shape a = Some [] \<and> np_shape b = Some []"
proof -
  from assms obtain xs where r: "r = JArr xs"
    by (cases r) auto
  with assms have cs: "common_shape (length xs) (map np_shape xs) = Some [2]"
    by simp
  then have len: "length xs = 2" and all: "\<forall>x\<in>set xs. np_shape x = Some []"
    by (auto simp: common_shape_Some)
  from len obtain a b where "xs = [a, b]"
    by (cases xs; cases "tl xs") auto
  with r all show ?thesis by auto
qed

lemma row_of_Some:
  "row_of pf r = Some (x, y) \<longleftrightarrow>
     (\<exists>a b. r = JArr [a, b] \<and> to_float pf a = Inr x \<and> to_float pf b = Inr y)"
  by (induction pf r rule: row_of.induct) (auto split: sum.splits)

lemma row_of_shape: "row_of pf r = Some p \<Longrightarrow> np_shape r = Some [2]"
  by (cases p) (auto simp: row_of_Some dest!: to_float_scalar)

lemma row_of_flat:
  "row_of pf r = Some (x, y) \<Longrightarrow> np_flat pf r = Inr [x, y]"
  by (auto simp: row_of_Some np_flat_scalar to_float_scalar)

lemma flat_row_of:
  assumes "np_shape r = Some [2]" and "np_flat pf r = Inr cs"
  shows "\<exists>x y. cs = [x, y] \<and> row_of pf r = Some (x, y)"
proof -
  from np_shape_pair [OF assms(1)] obtain a b
    where r: "r = JArr [a, b]" and a: "np_shape a = Some []" and b: "np_shape b = Some []"
    by blast
  from assms(2) show ?thesis
    unfolding r by (auto simp: np_flat_scalar a b split: sum.splits)
qed

lemma those_list_Some: "those_list xs = Some ys \<longleftrightarrow> xs = map Some ys"
proof (induction xs arbitrary: ys rule: those_list.induct)
  case 1
  then show ?case by auto
next
  case (2 xs)
  then show ?case by auto
next
  case (3 y xs)
  show ?case
  proof (cases "those_list xs")
    case None
    with 3 show ?thesis by (cases ys) auto
  next
    case (Some zs)
    with 3 show ?thesis by (cases ys) auto
  qed
qed

lemma rows2_flat_rows: "rows2 (flat_rows prs) = prs"
  by (induction prs) (auto simp: flat_rows_def)

lemma collect_rows:
  "map (row_of pf) rs = map Some prs \<Longrightarrow> collect (map (np_flat pf) rs) = Inr (flat_rows prs)"
proof (induction rs arbitrary: prs)
  case Nil
  then show ?case by (simp add: flat_rows_def)
next
  case (Cons r rs)
  then obtain p ps where prs: "prs = p # ps" and r: "row_of pf r = Some p"
    and rest: "map (row_of pf) rs = map Some ps"
    by (cases prs) auto
  obtain x y where p: "p = (x, y)" by (cases p)
  from r p have "np_flat pf r = Inr [x, y]" by (simp add: row_of_flat)
  with Cons.IH [OF rest] show ?case
    by (simp add: prs p flat_rows_def)
qed

lemma rows_collect:
  "\<forall>r\<in>set rs. np_shape r = Some [2] \<Longrightarrow> collect (map (np_flat pf) rs) = Inr cs \<Longrightarrow>
   \<exists>prs. map (row_of pf) rs = map Some prs \<and> cs = flat_rows prs"
proof (induction rs arbitrary: cs)
  case Nil
  then show ?case by (simp add: flat_rows_def)
next
  case (Cons r rs)
  from Cons.prems(2) obtain c1 c2 where c1: "np_flat pf r = Inr c1"
    and c2: "collect (map (np_flat pf) rs) = Inr c2" and cs: "cs = c1 @ c2"
    by (cases "np_flat pf r"; cases "collect (map (np_flat pf) rs)") auto
  from Cons.prems(1) have "np_shape r = Some [2]" by simp
  from flat_row_of [OF this c1] obtain x y where xy: "c1 = [x, y]" "row_of pf r = Some (x, y)"
    by blast
  from Cons.prems(1) have "\<forall>r\<in>set rs. np_shape r = Some [2]" by simp
  from Cons.IH [OF this c2] obtain ps where ps: "map (row_of pf) rs = map Some ps" "c2 = flat_rows ps"
    by blast
  have "map (row_of pf) (r # rs) = map Some ((x, y) # ps) \<and> cs = flat_rows ((x, y) # ps)"
    using xy ps cs by (simp add: flat_rows_def)
  then show ?case by blast
qed

lemma np_shape_route:
  "(\<exists>sh. np_shape route = Some sh \<and> length sh = 2 \<and> sh ! 1 = 2) \<longleftrightarrow>
   (\<exists>rs. route = JArr rs \<and> rs \<noteq> [] \<and> (\<forall>r\<in>set rs. np_shape r = Some [2]))"
proof
  assume "\<exists>sh. np_shape route = Some sh \<and> length sh = 2 \<and> sh ! 1 = 2"
  then obtain sh where sh: "np_shape route = Some sh" "length sh = 2" "sh ! 1 = 2"
    by blast
  then obtain rs where route: "route = JArr rs"
    by (cases route) auto
  with sh have "common_shape (length rs) (map np_shape rs) = Some sh" by simp
  with sh(2,3) have "rs \<noteq> [] \<and> (\<forall>r\<in>set rs. np_shape r = Some [2])"
    by (auto simp: common_shape_Some length_Suc_conv)
  with route show "\<exists>rs. route = JArr rs \<and> rs \<noteq> [] \<and> (\<forall>r\<in>set rs. np_shape r = Some [2])"
    by blast
next
  assume "\<exists>rs. route = JArr rs \<and> rs \<noteq> [] \<and> (\<forall>r\<in>set rs. np_shape r = Some [2])"
  then obtain rs where rs: "route = JArr rs" "rs \<noteq> []" "\<forall>r\<in>set rs. np_shape r = Some [2]"
    by blast
  then have "np_shape route = Some [length rs, 2]"
    by (simp add: common_shape_Some)
  then show "\<exists>sh. np_shape route = Some sh \<and> length sh = 2 \<and> sh ! 1 = 2"
    by simp
qed

lemma predict_route_Inr:
  "predict_route pf m route = Inr P \<longleftrightarrow>
     (\<exists>rs prs. route = JArr rs \<and> rs \<noteq> [] \<and> map (row_of pf) rs = map Some prs \<and>
        model_predict m prs = Inr P)"
proof
  assume L: "predict_route pf m route = Inr P"
  then obtain arr where arr: "np_array_float pf route = Inr arr"
    by (cases "np_array_float pf route") (auto simp: predict_route_def)
  with L have nd: "ndim arr = 2" and s1: "shape arr ! 1 = 2"
    and mp: "model_predict m (rows2 (cells arr)) = Inr P"
    by (auto simp: predict_route_def split: if_splits)
  from arr obtain sh cs where sh: "np_shape route = Some sh" and cs: "np_flat pf route = Inr cs"
    and arr_eq: "arr = \<lparr>shape = sh, cells = cs\<rparr>"
    by (auto simp: np_array_float_def split: option.splits sum.splits)
  from nd s1 arr_eq sh have "\<exists>sh. np_shape route = Some sh \<and> length sh = 2 \<and> sh ! 1 = 2"
    by (simp add: ndim_def)
  then obtain rs where rs: "route = JArr rs" "rs \<noteq> []" "\<forall>r\<in>set rs. np_shape r = Some [2]"
    unfolding np_shape_route by blast
  from cs rs(1) have "collect (map (np_flat pf) rs) = Inr cs" by simp
  from rows_collect [OF rs(3) this] obtain prs
    where prs: "map (row_of pf) rs = map Some prs" "cs = flat_rows prs"
    by blast
  from mp arr_eq prs(2) have "model_predict m prs = Inr P"
    by (simp add: rows2_flat_rows)
  with rs prs show "\<exists>rs prs. route = JArr rs \<and> rs \<noteq> [] \<and> map (row_of pf) rs = map Some prs \<and>
        model_predict m prs = Inr P"
    by blast
next
  assume "\<exists>rs prs. route = JArr rs \<and> rs \<noteq> [] \<and> map (row_of pf) rs = map Some prs \<and>
        model_predict m prs = Inr P"
  then obtain rs prs where rs: "route = JArr rs" "rs \<noteq> []"
    and prs: "map (row_of pf) rs = map Some prs" and mp: "model_predict m prs = Inr P"
    by blast
  have all: "\<forall>r\<in>set rs. np_shape r = Some [2]"
  proof
    fix r assume "r \<in> set rs"
    then have "row_of pf r \<in> set (map Some prs)"
      using prs by (metis image_eqI set_map)
    then obtain p where "row_of pf r = Some p" by auto
    then show "np_shape r = Some [2]" by (rule row_of_shape)
  qed
  with rs have sh: "np_shape route = Some [length rs, 2]"
    by (simp add: common_shape_Some)
  from collect_rows [OF prs] rs(1) have "np_flat pf route = Inr (flat_rows prs)"
    by simp
  with sh mp show "predict_route pf m route = Inr P"
    by (simp add: predict_route_def np_array_float_def ndim_def rows2_flat_rows)
qed

section \<open>Facts about the floats\<close>

lemma round_double_zero [simp]: "round_double 0 = Fin 0"
  by (simp add: round_double_def)

lemma pow2_cancel: "pow2 (- int n) * 2 ^ n = 1"
  using pow2_shift [of "- int n" n] by (simp add: pow2_def)

lemma round_double_int:
  assumes "\<bar>i\<bar> < 2 ^ 53"
  shows "round_double (of_int i) = Fin (of_int i)"
proof (cases "i = 0")
  case True
  then show ?thesis by simp
next
  case False
  let ?x = "real_of_int i"
  have x0: "?x \<noteq> 0" using False by simp
  have "pow2 0 \<le> \<bar>?x\<bar>"
    using False by (simp add: pow2_def)
  then have lo: "0 \<le> expo ?x" by (rule expo_ge)
  have "\<bar>?x\<bar> < 2 ^ 53"
    using assms by (metis of_int_abs of_int_less_iff of_int_numeral of_int_power)
  then have "\<bar>?x\<bar> < pow2 (52 + 1)"
    by (simp add: pow2_def)
  with x0 have hi: "expo ?x \<le> 52"
    by (intro expo_le) auto
  define n where "n = nat (52 - expo ?x)"
  have e: "expo ?x - 52 = - int n"
    using hi by (simp add: n_def)
  have "?x = of_int (i * 2 ^ n) * pow2 (expo ?x - 52)"
    using pow2_cancel [of n] by (simp add: e mult.assoc mult.commute [of "2 ^ n"])
  moreover have "\<bar>?x\<bar> < 2 ^ 1024"
    using \<open>\<bar>?x\<bar> < 2 ^ 53\<close> by (rule less_trans) simp
  ultimately show ?thesis by (rule round_double_fixed)
qed

lemma round_double_nat:
  assumes "n < 2 ^ 53"
  shows "round_double (real n) = Fin (real n)"
proof -
  have "\<bar>int n\<bar> < 2 ^ 53"
    using assms by (metis abs_of_nat of_nat_less_iff of_nat_numeral of_nat_power)
  from round_double_int [OF this] show ?thesis by simp
qed

lemma float_1_6_value: "float_1_6 = Fin (3602879701896397 / 2251799813685248)"
  unfolding float_1_6_def
  by (rule round_double_near [where e = 0 and k = 7205759403792794]) (simp_all add: pow2_def)

lemma q85_value: "fdiv (round_double 85) (Fin 100) = Fin (7656119366529843 / 9007199254740992)"
proof -
  have "round_double 85 = Fin 85"
    using round_double_int [of 85] by simp
  moreover have "round_double (85 / 100) = Fin (7656119366529843 / 9007199254740992)"
    by (rule round_double_near [where e = "- 1" and k = 7656119366529843])
       (simp_all add: pow2_def)
  ultimately show ?thesis by simp
qed

lemma round_double_numeral:
  "numeral n < (2 :: int) ^ 53 \<Longrightarrow> round_double (numeral n) = Fin (numeral n)"
  using round_double_int [of "numeral n"] by simp

lemma round_double_one [simp]: "round_double 1 = Fin 1"
  using round_double_int [of 1] by simp

lemma round_double_bounded:
  assumes "\<bar>x\<bar> < pow2 (e + 1)" and "- 1022 \<le> e" and "e \<le> 1022"
  shows "\<exists>y. round_double x = Fin y \<and> \<bar>y\<bar> \<le> pow2 (e + 1)"
proof (cases "x = 0")
  case True
  then show ?thesis
    using pow2_pos [of "e + 1"] by simp
next
  case False
  let ?u = "pow2 (expo x - 52)"
  let ?k = "rne (x / ?u)"
  let ?y = "of_int ?k * ?u"
  from False assms(1,2) have le: "expo x \<le> e" by (rule expo_le)
  have "\<bar>?k\<bar> \<le> 2 ^ 53" using False by (rule mant_upper)
  then have "real_of_int \<bar>?k\<bar> \<le> 2 ^ 53"
    by (metis of_int_le_iff of_int_numeral of_int_power)
  then have "real_of_int \<bar>?k\<bar> * ?u \<le> 2 ^ 53 * ?u"
    by (intro mult_right_mono) auto
  then have y1: "\<bar>?y\<bar> \<le> pow2 (expo x + 1)"
    by (simp add: abs_mult pow2_split mult.commute)
  have mono: "pow2 (expo x + 1) \<le> pow2 (e + 1)"
    using le by (intro pow2_mono) simp
  have "pow2 (e + 1) \<le> pow2 1023"
    using assms(3) by (intro pow2_mono) simp
  also have "\<dots> < 2 ^ 1024"
    by (simp add: pow2_def)
  finally have top: "pow2 (e + 1) < 2 ^ 1024" .
  from y1 mono top have "\<bar>?y\<bar> < 2 ^ 1024" by linarith
  with False have "round_double x = Fin ?y"
    by (simp add: round_double_def Let_def)
  with y1 mono show ?thesis by auto
qed

lemma round_double_nonneg:
  assumes "0 \<le> x" and "round_double x = Fin y"
  shows "0 \<le> y"
proof (cases "x = 0")
  case True
  with assms show ?thesis by simp
next
  case False
  let ?u = "pow2 (expo x - 52)"
  from assms(1) have "of_int 0 \<le> x / ?u" by simp
  then have "0 \<le> rne (x / ?u)" by (rule rne_ge)
  moreover from assms(2) False have "y = of_int (rne (x / ?u)) * ?u"
    by (simp add: round_double_def Let_def split: if_splits)
  ultimately show ?thesis by simp
qed

section \<open>The penalty and the average\<close>

lemma np_where_map:
  "np_where (map c xs) (map f xs) (map g xs) = map (\<lambda>x. if c x then f x else g x) xs"
  by (induction xs) auto

lemma penalized_mean_spec:
  assumes "P \<noteq> []"
  shows "penalized_mean P = Inr (spec_route_score P)"
proof -
  have "(\<lambda>x. if fle t (Fin x) then fmul (Fin x) float_1_6 else Fin x) = amplify t" for t
    by (rule ext) (simp add: amplify_def)
  with assms show ?thesis
    by (simp add: penalized_mean_def np_percentile_f64_def np_where_map spec_route_score_def
        penalized_def)
qed

lemma those_list_map_Some: "those_list (map Some ys) = Some ys"
  by (induction ys) auto

lemma model_predict_Inr: "model_predict m prs = Inr P \<longleftrightarrow> map m prs = map Some P"
proof
  assume "model_predict m prs = Inr P"
  then have "those_list (map m prs) = Some P"
    by (simp add: model_predict_def split: option.splits)
  then show "map m prs = map Some P"
    by (simp add: those_list_Some)
next
  assume "map m prs = map Some P"
  then show "model_predict m prs = Inr P"
    by (simp add: model_predict_def those_list_map_Some)
qed

lemma predict_route_nonempty:
  assumes "predict_route pf m route = Inr P"
  shows "P \<noteq> []"
proof -
  from assms obtain rs prs where "rs \<noteq> []" "map (row_of pf) rs = map Some prs"
    "map m prs = map Some P"
    unfolding predict_route_Inr model_predict_Inr by blast
  then have "length P = length rs"
    by (metis length_map)
  with \<open>rs \<noteq> []\<close> show ?thesis by auto
qed

lemma score_one_predicted:
  assumes "predict_route pf m route = Inr P"
  shows "score_one pf m route = spec_route_score P"
  using assms predict_route_nonempty [OF assms]
  by (simp add: score_one_def try_score_def penalized_mean_spec)

lemma score_one_rejected:
  "predict_route pf m route = Inl e \<Longrightarrow> score_one pf m route = PosInf"
  by (simp add: score_one_def try_score_def)

lemma pairwise_sum_short: "length a < 8 \<Longrightarrow> pairwise_sum a = foldl fadd (Fin 0) a"
  by (subst pairwise_sum.simps) simp

lemma is_double_round: "round_double x = Fin y \<Longrightarrow> is_double y"
  unfolding is_double_def by (rule round_double_idem)

lemma np_mean_single:
  assumes "\<And>y. w = Fin y \<Longrightarrow> is_double y"
  shows "np_mean [w] = w"
proof (cases w)
  case (Fin y)
  then have "round_double y = Fin y"
    using assms by (simp add: is_double_def)
  moreover have "round_double 1 = Fin 1"
    using round_double_int [of 1] by simp
  ultimately show ?thesis
    by (simp add: np_mean_def np_sum_def pairwise_sum_short Fin)
next
  case NaN
  then show ?thesis by (simp add: np_mean_def np_sum_def pairwise_sum_short)
next
  case PosInf
  have "round_double 1 = Fin 1"
    using round_double_int [of 1] by simp
  with PosInf show ?thesis
    by (simp add: np_mean_def np_sum_def pairwise_sum_short inf_of_def)
next
  case NegInf
  have "round_double 1 = Fin 1"
    using round_double_int [of 1] by simp
  with NegInf show ?thesis
    by (simp add: np_mean_def np_sum_def pairwise_sum_short inf_of_def)
qed

lemma lerp_same:
  assumes "is_double v" and "\<bar>g\<bar> \<le> pow2 55"
  shows "lerp (Fin v) (Fin v) (Fin g) = Fin v"
proof -
  have v: "round_double v = Fin v"
    using assms(1) by (simp add: is_double_def)
  have "pow2 55 + 1 < pow2 (55 + 1)"
    by (simp add: pow2_def)
  with assms(2) have "\<bar>1 - g\<bar> < pow2 (55 + 1)"
    by linarith
  then obtain y where "round_double (1 - g) = Fin y"
    using round_double_bounded [of "1 - g" 55] by auto
  then have "fsub (Fin 1) (Fin g) = Fin y"
    by (simp add: fsub_def)
  then show ?thesis
    by (simp add: lerp_def fsub_def v Let_def)
qed

section \<open>The percentile\<close>

lemma virtual_index_85:
  assumes "n < 2 ^ 53"
  shows "\<exists>hv. virtual_index n 85 = Fin hv \<and> 0 \<le> hv \<and> hv \<le> pow2 53"
proof -
  let ?q = "7656119366529843 / 9007199254740992 :: real"
  have n1: "n - 1 < 2 ^ 53" using assms by simp
  then have N: "round_double (real (n - 1)) = Fin (real (n - 1))"
    by (rule round_double_nat)
  have "real (n - 1) < 2 ^ 53"
    using n1 by (metis of_nat_less_iff of_nat_numeral of_nat_power)
  moreover have "real (n - 1) * ?q \<le> real (n - 1) * 1"
    by (intro mult_left_mono) auto
  ultimately have "\<bar>real (n - 1) * ?q\<bar> < pow2 (52 + 1)"
    by (simp add: pow2_def)
  then obtain hv where hv: "round_double (real (n - 1) * ?q) = Fin hv" "\<bar>hv\<bar> \<le> pow2 (52 + 1)"
    using round_double_bounded [of "real (n - 1) * ?q" 52] by auto
  have "0 \<le> real (n - 1) * ?q" by simp
  then have "0 \<le> hv" using hv(1) by (rule round_double_nonneg)
  moreover have "virtual_index n 85 = Fin hv"
    by (simp only: virtual_index_def q85_value N fmul.simps hv(1))
  ultimately show ?thesis using hv(2) by auto
qed

lemma weight_above:
  assumes "0 \<le> hv" and "hv \<le> pow2 53"
  shows "\<exists>g. fsub (Fin hv) (Fin (- 1)) = Fin g \<and> \<bar>g\<bar> \<le> pow2 55"
proof -
  have "pow2 53 + 1 < pow2 (54 + 1)"
    by (simp add: pow2_def)
  with assms have "\<bar>hv + 1\<bar> < pow2 (54 + 1)" by linarith
  then show ?thesis
    using round_double_bounded [of "hv + 1" 54] by (simp add: fsub_def)
qed

lemma weight_between:
  assumes "0 \<le> hv"
  shows "\<exists>g. fsub (Fin hv) (Fin (real (nat \<lfloor>hv\<rfloor>))) = Fin g \<and> \<bar>g\<bar> \<le> pow2 55"
proof -
  have lo: "real (nat \<lfloor>hv\<rfloor>) = of_int \<lfloor>hv\<rfloor>"
    using assms by simp
  have "\<bar>hv - of_int \<lfloor>hv\<rfloor>\<bar> < 1"
    by linarith
  then have "\<bar>hv + - real (nat \<lfloor>hv\<rfloor>)\<bar> < pow2 (- 1 + 1)"
    by (simp add: lo pow2_def)
  then obtain g where g: "round_double (hv + - real (nat \<lfloor>hv\<rfloor>)) = Fin g" "\<bar>g\<bar> \<le> pow2 (- 1 + 1)"
    using round_double_bounded [of "hv + - real (nat \<lfloor>hv\<rfloor>)" "- 1"] by auto
  have "pow2 (- 1 + 1) \<le> pow2 55"
    by (intro pow2_mono) simp
  with g show ?thesis
    by (auto simp: fsub_def)
qed

lemma quantile_f64_replicate:
  assumes "0 < k" and "k < 2 ^ 53" and "is_double V"
  shows "quantile_f64 85 (replicate k V) = Fin V"
proof -
  from virtual_index_85 [OF assms(2)] obtain hv
    where h: "virtual_index k 85 = Fin hv" and hv: "0 \<le> hv" "hv \<le> pow2 53"
    by blast
  have s: "sort (replicate k V) = replicate k V"
    by (simp add: sorted_sort_id)
  have l: "last (replicate k V) = V"
    using assms(1) by simp
  show ?thesis
  proof (cases "real (k - 1) \<le> hv")
    case True
    from weight_above [OF hv] obtain g
      where "fsub (Fin hv) (Fin (- 1)) = Fin g" "\<bar>g\<bar> \<le> pow2 55" by blast
    with True show ?thesis
      by (simp add: quantile_f64_def s l h lerp_same [OF assms(3)])
  next
    case False
    then have "hv < real (k - 1)" by simp
    then have "\<lfloor>hv\<rfloor> < int (k - 1)" by linarith
    moreover have "0 \<le> \<lfloor>hv\<rfloor>" using hv(1) by simp
    ultimately have lo: "nat \<lfloor>hv\<rfloor> + 1 < k" by linarith
    from weight_between [OF hv(1)] obtain g
      where "fsub (Fin hv) (Fin (real (nat \<lfloor>hv\<rfloor>))) = Fin g" "\<bar>g\<bar> \<le> pow2 55" by blast
    with False lo show ?thesis
      by (simp add: quantile_f64_def s h Let_def lerp_same [OF assms(3)])
  qed
qed

section \<open>Runs on concrete predictions\<close>

lemma rd_1: "round_double (8 / 5) = Fin (3602879701896397 / 2251799813685248)"
  by (rule round_double_eval [where e = 0 and k = 7205759403792794]) (simp_all add: pow2_def rne_def)

lemma rd_2: "round_double (17 / 20) = Fin (7656119366529843 / 9007199254740992)"
  by (rule round_double_eval [where e = "- 1" and k = 7656119366529843]) (simp_all add: pow2_def rne_def)

lemma rd_3: "round_double (3602879701896397 / 2251799813685248) = Fin (3602879701896397 / 2251799813685248)"
  by (rule round_double_eval [where e = 0 and k = 7205759403792794]) (simp_all add: pow2_def rne_def)

lemma rd_4: "round_double (18014398509481985 / 1125899906842624) = Fin (16)"
  by (rule round_double_eval [where e = 4 and k = 4503599627370496]) (simp_all add: pow2_def rne_def)

lemma rd_5: "round_double (7656119366529843 / 9007199254740992) = Fin (7656119366529843 / 9007199254740992)"
  by (rule round_double_eval [where e = "- 1" and k = 7656119366529843]) (simp_all add: pow2_def rne_def)

lemma rd_6: "round_double (68905074298768587 / 9007199254740992) = Fin (8613134287346073 / 1125899906842624)"
  by (rule round_double_eval [where e = 2 and k = 8613134287346073]) (simp_all add: pow2_def rne_def)

lemma rd_7: "round_double (9739034194188697 / 1125899906842624) = Fin (1217379274273587 / 140737488355328)"
  by (rule round_double_eval [where e = 3 and k = 4869517097094348]) (simp_all add: pow2_def rne_def)

lemma rd_8: "round_double (1351079888211149 / 9007199254740992) = Fin (1351079888211149 / 9007199254740992)"
  by (rule round_double_eval [where e = "- 3" and k = 5404319552844596]) (simp_all add: pow2_def rne_def)

lemma rd_9: "round_double (12159718993900341 / 9007199254740992) = Fin (3039929748475085 / 2251799813685248)"
  by (rule round_double_eval [where e = 0 and k = 6079859496950170]) (simp_all add: pow2_def rne_def)

lemma rd_10: "round_double (19478068388377395 / 2251799813685248) = Fin (4869517097094349 / 562949953421312)"
  by (rule round_double_eval [where e = 3 and k = 4869517097094349]) (simp_all add: pow2_def rne_def)

lemma rd_11: "round_double (17 / 2) = Fin (17 / 2)"
  by (rule round_double_eval [where e = 3 and k = 4785074604081152]) (simp_all add: pow2_def rne_def)

lemma rd_12: "round_double (3602879701896397 / 1125899906842624) = Fin (3602879701896397 / 1125899906842624)"
  by (rule round_double_eval [where e = 1 and k = 7205759403792794]) (simp_all add: pow2_def rne_def)

lemma rd_13: "round_double (7656119366529843 / 2251799813685248) = Fin (7656119366529843 / 2251799813685248)"
  by (rule round_double_eval [where e = 1 and k = 7656119366529843]) (simp_all add: pow2_def rne_def)

lemma rd_14: "round_double (900719925474099 / 2251799813685248) = Fin (900719925474099 / 2251799813685248)"
  by (rule round_double_eval [where e = "- 2" and k = 7205759403792792]) (simp_all add: pow2_def rne_def)

lemma rd_15: "round_double (8106479329266891 / 2251799813685248) = Fin (8106479329266891 / 2251799813685248)"
  by (rule round_double_eval [where e = 1 and k = 8106479329266891]) (simp_all add: pow2_def rne_def)

lemma rd_16: "round_double (10358279142952139 / 2251799813685248) = Fin (2589569785738035 / 562949953421312)"
  by (rule round_double_eval [where e = 2 and k = 5179139571476070]) (simp_all add: pow2_def rne_def)

lemma rd_17: "round_double (22968358099589529 / 9007199254740992) = Fin (2871044762448691 / 1125899906842624)"
  by (rule round_double_eval [where e = 1 and k = 5742089524897382]) (simp_all add: pow2_def rne_def)

lemma rd_18: "round_double (619244948763443 / 1125899906842624) = Fin (619244948763443 / 1125899906842624)"
  by (rule round_double_eval [where e = "- 1" and k = 4953959590107544]) (simp_all add: pow2_def rne_def)

lemma rd_19: "round_double (9007199254740992) = Fin (9007199254740992)"
  by (rule round_double_eval [where e = 53 and k = 4503599627370496]) (simp_all add: pow2_def rne_def)

lemma rd_20: "round_double (506654958079181 / 1125899906842624) = Fin (506654958079181 / 1125899906842624)"
  by (rule round_double_eval [where e = "- 2" and k = 8106479329266896]) (simp_all add: pow2_def rne_def)

lemma rd_21: "round_double (14411518807585588) = Fin (14411518807585588)"
  by (rule round_double_eval [where e = 53 and k = 7205759403792794]) (simp_all add: pow2_def rne_def)

lemma rd_22: "round_double (14411518807585589) = Fin (14411518807585588)"
  by (rule round_double_eval [where e = 53 and k = 7205759403792794]) (simp_all add: pow2_def rne_def)

lemma rd_23: "round_double (14411518807585590) = Fin (14411518807585590)"
  by (rule round_double_eval [where e = 53 and k = 7205759403792795]) (simp_all add: pow2_def rne_def)

lemma rd_24: "round_double (28823037615171178) = Fin (28823037615171176)"
  by (rule round_double_eval [where e = 54 and k = 7205759403792794]) (simp_all add: pow2_def rne_def)

lemma rd_25: "round_double (28823037615171176) = Fin (28823037615171176)"
  by (rule round_double_eval [where e = 54 and k = 7205759403792794]) (simp_all add: pow2_def rne_def)

lemma rd_26: "round_double (14411518807585591) = Fin (14411518807585592)"
  by (rule round_double_eval [where e = 53 and k = 7205759403792796]) (simp_all add: pow2_def rne_def)

lemma rd_27: "round_double (28823037615171180) = Fin (28823037615171180)"
  by (rule round_double_eval [where e = 54 and k = 7205759403792795]) (simp_all add: pow2_def rne_def)

lemma rd_28: "round_double (7656119366529843 / 4503599627370496) = Fin (7656119366529843 / 4503599627370496)"
  by (rule round_double_eval [where e = 0 and k = 7656119366529843]) (simp_all add: pow2_def rne_def)

lemma rd_29: "round_double (3152519739159347 / 4503599627370496) = Fin (3152519739159347 / 4503599627370496)"
  by (rule round_double_eval [where e = "- 1" and k = 6305039478318694]) (simp_all add: pow2_def rne_def)

lemma rd_30: "round_double (1 / 16) = Fin (1 / 16)"
  by (rule round_double_eval [where e = "- 4" and k = 4503599627370496]) (simp_all add: pow2_def rne_def)

lemma rd_31: "round_double (1351079888211149 / 4503599627370496) = Fin (1351079888211149 / 4503599627370496)"
  by (rule round_double_eval [where e = "- 2" and k = 5404319552844596]) (simp_all add: pow2_def rne_def)

lemma rd_32: "round_double (3602879701896397 / 36028797018963968) = Fin (3602879701896397 / 36028797018963968)"
  by (rule round_double_eval [where e = "- 4" and k = 7205759403792794]) (simp_all add: pow2_def rne_def)

lemma rd_33: "round_double (3602879701896397 / 18014398509481984) = Fin (3602879701896397 / 18014398509481984)"
  by (rule round_double_eval [where e = "- 3" and k = 7205759403792794]) (simp_all add: pow2_def rne_def)

lemma rd_34: "round_double (10808639105689191 / 36028797018963968) = Fin (1351079888211149 / 4503599627370496)"
  by (rule round_double_eval [where e = "- 2" and k = 5404319552844596]) (simp_all add: pow2_def rne_def)

lemma rd_35: "round_double (1351079888211149 / 13510798882111488) = Fin (7205759403792795 / 72057594037927936)"
  by (rule round_double_eval [where e = "- 4" and k = 7205759403792795]) (simp_all add: pow2_def rne_def)

lemma rd_36: "round_double (1 / 8) = Fin (1 / 8)"
  by (rule round_double_eval [where e = "- 3" and k = 4503599627370496]) (simp_all add: pow2_def rne_def)

lemma rd_37: "round_double (3 / 16) = Fin (3 / 16)"
  by (rule round_double_eval [where e = "- 3" and k = 6755399441055744]) (simp_all add: pow2_def rne_def)

lemmas roundings = rd_1 rd_2 rd_3 rd_4 rd_5 rd_6 rd_7 rd_8 rd_9 rd_10 rd_11 rd_12 rd_13 rd_14 rd_15 rd_16 rd_17 rd_18 rd_19 rd_20 rd_21 rd_22 rd_23 rd_24 rd_25 rd_26 rd_27 rd_28 rd_29 rd_30 rd_31 rd_32 rd_33 rd_34 rd_35 rd_36 rd_37

lemma ev_one_q: "quantile_f64 85 [1] = Fin (1)"
  by (simp add: quantile_f64_def virtual_index_def lerp_def fsub_def Let_def round_double_numeral
      roundings)

lemma ev_one_s: "spec_route_score [1] = Fin (3602879701896397 / 2251799813685248)"
  by (simp add: spec_route_score_def penalized_def ev_one_q amplify_def float_1_6_value
      np_mean_def np_sum_def pairwise_sum_short round_double_numeral roundings)

lemma ev_ten_q: "quantile_f64 85 [10] = Fin (10)"
  by (simp add: quantile_f64_def virtual_index_def lerp_def fsub_def Let_def round_double_numeral
      roundings)

lemma ev_ten_s: "spec_route_score [10] = Fin (16)"
  by (simp add: spec_route_score_def penalized_def ev_ten_q amplify_def float_1_6_value
      np_mean_def np_sum_def pairwise_sum_short round_double_numeral roundings)





lemma ev_scenario_q: "quantile_f64 85 [1, 1, 1, 1, 10] = Fin (2589569785738035 / 562949953421312)"
  by (simp add: quantile_f64_def virtual_index_def lerp_def fsub_def Let_def round_double_numeral
      roundings)

lemma ev_scenario_s: "spec_route_score [1, 1, 1, 1, 10] = Fin (4)"
  by (simp add: spec_route_score_def penalized_def ev_scenario_q amplify_def float_1_6_value
      np_mean_def np_sum_def pairwise_sum_short round_double_numeral roundings)





lemma ev_sixteenths_q: "quantile_f64 85 [1 / 16, 1 / 16, 1 / 16] = Fin (1 / 16)"
  by (simp add: quantile_f64_def virtual_index_def lerp_def fsub_def Let_def round_double_numeral
      roundings)

lemma ev_sixteenths_s: "spec_route_score [1 / 16, 1 / 16, 1 / 16] = Fin (7205759403792795 / 72057594037927936)"
  by (simp add: spec_route_score_def penalized_def ev_sixteenths_q amplify_def float_1_6_value
      np_mean_def np_sum_def pairwise_sum_short round_double_numeral roundings)

lemma ev_sixteenths_m: "np_mean (map Fin [1 / 16, 1 / 16, 1 / 16]) = Fin (1 / 16)"
  by (simp add: np_mean_def np_sum_def pairwise_sum_short round_double_numeral roundings)

lemma ev_sixteenths_u: "fmul float_1_6 (Fin (1 / 16)) = Fin (3602879701896397 / 36028797018963968)"
  by (simp add: float_1_6_value round_double_numeral roundings)

section \<open>The score of a valid route\<close>









section \<open>The batch\<close>

lemma score_loop_map: "score_loop pf m routes scores = scores @ map (score_one pf m) routes"
  by (induction routes arbitrary: scores) auto

text \<open>
  C2. A batch of \<open>N\<close> routes, whatever the routes are, gets exactly \<open>N\<close> scores, and the
  score at each position is the score of the route at that position.
\<close>

theorem score_batch_length_order:
  "length (score_batch pf m routes) = length routes \<and>
   score_batch pf m routes = map (score_one pf m) routes"
  by (simp add: score_batch_def score_loop_map)

section \<open>Malformed routes\<close>

lemma well_formed_rows:
  "well_formed pf route \<longleftrightarrow>
     (\<exists>rs prs. route = JArr rs \<and> rs \<noteq> [] \<and> map (row_of pf) rs = map Some prs)"
proof
  assume "well_formed pf route"
  then obtain rs where rs: "route = JArr rs" "rs \<noteq> []" "\<forall>r\<in>set rs. row_of pf r \<noteq> None"
    by (cases route) (auto simp: well_formed_def list_all_iff)
  then have "map (row_of pf) rs = map Some (map (the \<circ> row_of pf) rs)"
    by auto
  with rs show "\<exists>rs prs. route = JArr rs \<and> rs \<noteq> [] \<and> map (row_of pf) rs = map Some prs"
    by blast
next
  assume "\<exists>rs prs. route = JArr rs \<and> rs \<noteq> [] \<and> map (row_of pf) rs = map Some prs"
  then obtain rs prs where rs: "route = JArr rs" "rs \<noteq> []" "map (row_of pf) rs = map Some prs"
    by blast
  have "row_of pf r \<noteq> None" if "r \<in> set rs" for r
  proof -
    from that have "row_of pf r \<in> set (map Some prs)"
      using rs(3) by (metis image_eqI set_map)
    then show ?thesis by auto
  qed
  with rs show "well_formed pf route"
    by (simp add: well_formed_def list_all_iff)
qed

lemma malformed_rejected:
  assumes "\<not> well_formed pf route"
  shows "\<exists>e. predict_route pf m route = Inl e"
proof (cases "predict_route pf m route")
  case (Inl e)
  then show ?thesis by blast
next
  case (Inr P)
  then have "well_formed pf route"
    unfolding predict_route_Inr well_formed_rows by blast
  with assms show ?thesis by simp
qed

lemma score_batch_map: "score_batch pf m routes = map (score_one pf m) routes"
  by (simp add: score_batch_def score_loop_map)

lemmas run_route =
  predict_route_def np_array_float_def ndim_def model_predict_def one_cell_def
  float_of_int_def round_double_numeral

lemma score_one_value:
  "predict_route pf m route = Inr P \<Longrightarrow> spec_route_score P = s \<Longrightarrow> score_one pf m route = s"
  using score_one_predicted [of pf m route P] by simp

text \<open>
  C3, as the code has it. A route that is not a non-empty list of rows, each a list of
  exactly two scalars that convert to float, scores infinity, and the scores of the other
  routes of the batch are those of the batch without it. The scorer is a total function:
  no exception leaves it.
\<close>

theorem malformed_route_sentinel:
  assumes "\<not> well_formed pf r"
  shows "score_one pf m r = PosInf \<and>
         score_batch pf m (xs @ r # ys) =
           take (length xs) (score_batch pf m (xs @ ys)) @ PosInf #
           drop (length xs) (score_batch pf m (xs @ ys))"
proof -
  from malformed_rejected [OF assms] obtain e where "predict_route pf m r = Inl e"
    by blast
  then have "score_one pf m r = PosInf"
    by (rule score_one_rejected)
  then show ?thesis
    by (simp add: score_batch_map)
qed

theorem malformed_route_sentinel_witness:
  "\<not> well_formed no_parse (JArr [JArr [JInt 1, JStr ''x'']]) \<and>
   score_one no_parse lat_model (JArr [JArr [JInt 1, JStr ''x'']]) = PosInf \<and>
   score_batch no_parse lat_model
     [JArr [JArr [JInt 1, JInt 2]], JArr [JArr [JInt 1, JStr ''x'']], JArr [JArr [JInt 5, JInt 2]]] =
     [float_1_6, PosInf, Fin 16] \<and>
   score_batch no_parse lat_model
     [JArr [JArr [JInt 1, JInt 2]], JArr [JArr [JInt 5, JInt 2]]] = [float_1_6, Fin 16]"
proof -
  have wf: "\<not> well_formed no_parse (JArr [JArr [JInt 1, JStr ''x'']])"
    by (simp add: well_formed_def no_parse_def float_of_int_def)
  have "predict_route no_parse lat_model (JArr [JArr [JInt 1, JInt 2]]) = Inr [1]"
    by (simp add: run_route lat_model_def)
  then have s1: "score_one no_parse lat_model (JArr [JArr [JInt 1, JInt 2]]) = float_1_6"
    by (rule score_one_value) (simp add: ev_one_s float_1_6_value)
  have "predict_route no_parse lat_model (JArr [JArr [JInt 5, JInt 2]]) = Inr [10]"
    by (simp add: run_route lat_model_def)
  then have s2: "score_one no_parse lat_model (JArr [JArr [JInt 5, JInt 2]]) = Fin 16"
    by (rule score_one_value) (simp add: ev_ten_s)
  have b: "score_batch no_parse lat_model
     [JArr [JArr [JInt 1, JInt 2]], JArr [JArr [JInt 5, JInt 2]]] = [float_1_6, Fin 16]"
    by (simp add: score_batch_def s1 s2)
  from malformed_route_sentinel [OF wf, of lat_model "[JArr [JArr [JInt 1, JInt 2]]]"
      "[JArr [JArr [JInt 5, JInt 2]]]"] wf b
  show ?thesis by simp
qed

text \<open>
  C3 as stated fails: a route whose point holds the booleans true and false, which are no
  numbers, is converted to [[1.0, 0.0]] and gets a finite score.
\<close>

theorem bool_route_scored:
  "\<not> numeric_route (JArr [JArr [JBool True, JBool False]]) \<and>
   score_one no_parse (const_model 1) (JArr [JArr [JBool True, JBool False]]) = float_1_6 \<and>
   score_one no_parse (const_model 1) (JArr [JArr [JBool True, JBool False]]) \<noteq> PosInf"
proof -
  have "predict_route no_parse (const_model 1) (JArr [JArr [JBool True, JBool False]]) = Inr [1]"
    by (simp add: run_route const_model_def)
  then have "score_one no_parse (const_model 1) (JArr [JArr [JBool True, JBool False]]) = float_1_6"
    by (rule score_one_value) (simp add: ev_one_s float_1_6_value)
  then show ?thesis
    by (simp add: numeric_route_def float_1_6_value)
qed

section \<open>The endpoint, on an empty batch\<close>

text \<open>
  C9. A request whose \<open>routes\<close> field is the empty list is answered 400, and an answer 200
  always carries the scores of a batch that is not empty.
\<close>

theorem empty_batch_rejected:
  "(map_of kvs ''routes'' = Some (JArr []) \<longrightarrow>
      score_route pf m (Some (JObj kvs)) = Response 400 (Error ''Missing 'routes' list'')) \<and>
   (score_route pf m request_json = Response 200 (Scores ss) \<longrightarrow>
      (\<exists>rs. rs \<noteq> [] \<and> ss = score_batch pf m rs) \<and> ss \<noteq> [])"
proof (intro conjI impI)
  assume "map_of kvs ''routes'' = Some (JArr [])"
  moreover from this have "kvs \<noteq> []" by auto
  ultimately show "score_route pf m (Some (JObj kvs)) = Response 400 (Error ''Missing 'routes' list'')"
    by (simp add: score_route_def)
next
  assume ok: "score_route pf m request_json = Response 200 (Scores ss)"
  then show "\<exists>rs. rs \<noteq> [] \<and> ss = score_batch pf m rs"
    by (auto simp: score_route_def split: option.splits if_splits sum.splits json.splits)
  then show "ss \<noteq> []"
    by (auto simp: score_batch_map)
qed

theorem empty_batch_rejected_witness:
  "map_of [(''routes'', JArr [])] ''routes'' = Some (JArr []) \<and>
   score_route no_parse lat_model (Some (JObj [(''routes'', JArr [])])) =
     Response 400 (Error ''Missing 'routes' list'') \<and>
   score_route no_parse lat_model (Some (JObj [(''routes'', JArr [JArr [JArr [JInt 5, JInt 2]]])])) =
     Response 200 (Scores [Fin 16]) \<and> [Fin 16] \<noteq> []"
proof -
  have "predict_route no_parse lat_model (JArr [JArr [JInt 5, JInt 2]]) = Inr [10]"
    by (simp add: run_route lat_model_def)
  then have "score_one no_parse lat_model (JArr [JArr [JInt 5, JInt 2]]) = Fin 16"
    by (rule score_one_value) (simp add: ev_ten_s)
  then have ok: "score_route no_parse lat_model
      (Some (JObj [(''routes'', JArr [JArr [JArr [JInt 5, JInt 2]]])])) =
     Response 200 (Scores [Fin 16])"
    by (simp add: score_route_def score_batch_def)
  from empty_batch_rejected [of "[(''routes'', JArr [])]" no_parse lat_model
      "Some (JObj [(''routes'', JArr [JArr [JArr [JInt 5, JInt 2]]])])" "[Fin 16]"] ok
  show ?thesis by simp
qed

section \<open>One point, and equal predictions\<close>

lemma amplified_is_double: "fmul (Fin v) float_1_6 = Fin y \<Longrightarrow> is_double y"
  by (simp add: float_1_6_value is_double_round)

lemma spec_route_score_replicate:
  assumes "0 < k" and "k < 2 ^ 53" and "is_double V"
  shows "spec_route_score (replicate k V) = np_mean (replicate k (fmul (Fin V) float_1_6))"
  using assms
  by (simp add: spec_route_score_def penalized_def quantile_f64_replicate amplify_def)

text \<open>
  C4. A route of one point whose predicted intensity is the float \<open>v\<close> scores the float
  product \<open>v * 1.6\<close>: the 85th percentile of a single value is that value, so the point is
  always amplified.
\<close>

theorem one_point_score:
  assumes "predict_route pf m route = Inr [v]" and "is_double v"
  shows "score_one pf m route = fmul (Fin v) float_1_6"
proof -
  have "spec_route_score (replicate 1 v) = np_mean (replicate 1 (fmul (Fin v) float_1_6))"
    using assms(2) by (intro spec_route_score_replicate) simp_all
  then have "spec_route_score [v] = np_mean [fmul (Fin v) float_1_6]"
    by simp
  also have "\<dots> = fmul (Fin v) float_1_6"
    by (rule np_mean_single) (rule amplified_is_double)
  finally show ?thesis
    using score_one_predicted [OF assms(1)] by simp
qed

theorem one_point_score_witness:
  "predict_route no_parse lat_model (JArr [JArr [JInt 5, JInt 2]]) = Inr [10] \<and>
   is_double 10 \<and>
   score_one no_parse lat_model (JArr [JArr [JInt 5, JInt 2]]) = fmul (Fin 10) float_1_6 \<and>
   fmul (Fin 10) float_1_6 = Fin 16"
proof -
  have p: "predict_route no_parse lat_model (JArr [JArr [JInt 5, JInt 2]]) = Inr [10]"
    by (simp add: run_route lat_model_def)
  have d: "is_double 10"
    by (simp add: is_double_def round_double_numeral)
  have v: "fmul (Fin 10) float_1_6 = Fin 16"
    by (simp add: float_1_6_value roundings)
  from one_point_score [OF p d] p d v show ?thesis
    by (simp only: simp_thms)
qed




section \<open>The scenario of the specification\<close>

text \<open>
  C6. A route of five points with the predictions [1, 1, 1, 1, 10] scores exactly 4.
\<close>

theorem scenario_score:
  assumes "predict_route pf m route = Inr [1, 1, 1, 1, 10]"
  shows "score_one pf m route = Fin 4"
  using score_one_predicted [OF assms] by (simp only: ev_scenario_s)

theorem scenario_score_witness:
  "predict_route no_parse lat_model
     (JArr [JArr [JInt 1, JInt 0], JArr [JInt 2, JInt 0], JArr [JInt 3, JInt 0],
            JArr [JInt 4, JInt 0], JArr [JInt 5, JInt 0]]) = Inr [1, 1, 1, 1, 10] \<and>
   score_one no_parse lat_model
     (JArr [JArr [JInt 1, JInt 0], JArr [JInt 2, JInt 0], JArr [JInt 3, JInt 0],
            JArr [JInt 4, JInt 0], JArr [JInt 5, JInt 0]]) = Fin 4"
proof -
  have p: "predict_route no_parse lat_model
     (JArr [JArr [JInt 1, JInt 0], JArr [JInt 2, JInt 0], JArr [JInt 3, JInt 0],
            JArr [JInt 4, JInt 0], JArr [JInt 5, JInt 0]]) = Inr [1, 1, 1, 1, 10]"
    by (simp add: run_route lat_model_def)
  from scenario_score [OF p] p show ?thesis by (simp only: simp_thms)
qed

text \<open>
  C7, as the code has it. The 85th percentile of [1, 1, 1, 1, 10] by linear interpolation
  is 4.6: the virtual index is 0.85 * 4 = 3.4, between the sorted values 1 and 10.
\<close>

theorem scenario_percentile: "np_percentile [1, 1, 1, 1, 10] 85 = Inr 4.6"
  by (simp add: np_percentile_def percentile_linear_def)

text \<open>
  C7 as stated fails: that percentile is not 7.
\<close>

theorem scenario_percentile_not_seven: "np_percentile [1, 1, 1, 1, 10] 85 \<noteq> Inr 7"
  by (simp add: np_percentile_def percentile_linear_def)

text \<open>
  On floats the same percentile is the float nearest to 4.6.
\<close>

lemma scenario_percentile_f64:
  "np_percentile_f64 [1, 1, 1, 1, 10] 85 = Inr (round_double 4.6)"
proof -
  have "round_double 4.6 = Fin (2589569785738035 / 562949953421312)"
    by (rule round_double_eval [where e = 2 and k = 5179139571476070])
       (simp_all add: pow2_def rne_def)
  then show ?thesis
    by (simp add: np_percentile_f64_def ev_scenario_q)
qed

section \<open>The order of the points\<close>








section \<open>Rounding is monotone\<close>

lemma expo_mono:
  assumes "0 < x" and "x \<le> y"
  shows "expo x \<le> expo y"
proof -
  have "log 2 \<bar>x\<bar> \<le> log 2 \<bar>y\<bar>"
    using assms by simp
  then have "\<lfloor>log 2 \<bar>x\<bar>\<rfloor> \<le> \<lfloor>log 2 \<bar>y\<bar>\<rfloor>"
    by (rule floor_mono)
  then show ?thesis by (simp add: expo_def)
qed

lemma round_double_rval:
  "x \<noteq> 0 \<Longrightarrow>
   round_double x = (if 2 ^ 1024 \<le> \<bar>rval x\<bar> then (if 0 < x then PosInf else NegInf) else Fin (rval x))"
  by (simp add: round_double_def rval_def Let_def)

lemma rval_nonneg: "0 \<le> x \<Longrightarrow> 0 \<le> rval x"
proof -
  assume "0 \<le> x"
  then have "of_int 0 \<le> x / pow2 (expo x - 52)" by simp
  then have "0 \<le> rne (x / pow2 (expo x - 52))" by (rule rne_ge)
  then show ?thesis by (simp add: rval_def)
qed

lemma rval_upper:
  assumes "x \<noteq> 0"
  shows "\<bar>rval x\<bar> \<le> pow2 (expo x + 1)"
proof -
  let ?u = "pow2 (expo x - 52)"
  let ?k = "rne (x / ?u)"
  have "\<bar>?k\<bar> \<le> 2 ^ 53" using assms by (rule mant_upper)
  then have "real_of_int \<bar>?k\<bar> \<le> 2 ^ 53"
    by (metis of_int_le_iff of_int_numeral of_int_power)
  then have "real_of_int \<bar>?k\<bar> * ?u \<le> 2 ^ 53 * ?u"
    by (intro mult_right_mono) auto
  then show ?thesis
    by (simp add: rval_def abs_mult pow2_split mult.commute)
qed

lemma rval_lower:
  assumes "0 < x" and "expo x \<noteq> - 1022"
  shows "pow2 (expo x) \<le> rval x"
proof -
  let ?u = "pow2 (expo x - 52)"
  from assms have "pow2 (expo x) \<le> \<bar>x\<bar>"
    by (intro expo_normal) auto
  then have "2 ^ 52 \<le> \<bar>rne (x / ?u)\<bar>"
    by (rule mant_lower)
  moreover have "of_int 0 \<le> x / ?u"
    using assms(1) by simp
  then have "0 \<le> rne (x / ?u)" by (rule rne_ge)
  ultimately have "2 ^ 52 \<le> rne (x / ?u)" by linarith
  then have "(2 :: real) ^ 52 \<le> real_of_int (rne (x / ?u))"
    by (metis of_int_le_iff of_int_numeral of_int_power)
  then have "2 ^ 52 * ?u \<le> real_of_int (rne (x / ?u)) * ?u"
    by (intro mult_right_mono) auto
  then show ?thesis
    by (simp add: rval_def pow2_split' [of "expo x"] mult.commute)
qed

lemma rval_mono:
  assumes "0 < x" and "x \<le> y"
  shows "rval x \<le> rval y"
proof (cases "expo x = expo y")
  case True
  have "x / pow2 (expo x - 52) \<le> y / pow2 (expo x - 52)"
    using assms(2) by (simp add: divide_right_mono)
  then have "rne (x / pow2 (expo x - 52)) \<le> rne (y / pow2 (expo x - 52))"
    by (rule rne_mono)
  then have "real_of_int (rne (x / pow2 (expo x - 52))) \<le> real_of_int (rne (y / pow2 (expo x - 52)))"
    by simp
  then show ?thesis
    unfolding rval_def True [symmetric] by (intro mult_right_mono) auto
next
  case False
  with expo_mono [OF assms] have lt: "expo x < expo y" by simp
  have y: "0 < y" using assms by simp
  have "rval x \<le> pow2 (expo x + 1)"
    using rval_upper [of x] assms(1) by simp
  also have "\<dots> \<le> pow2 (expo y)"
    using lt by (intro pow2_mono) simp
  also have "\<dots> \<le> rval y"
    using y lt expo_lower [of x] by (intro rval_lower) auto
  finally show ?thesis .
qed

lemma round_double_mono:
  assumes "0 \<le> x" and "x \<le> y"
  shows "fle (round_double x) (round_double y)"
proof (cases "x = 0")
  case True
  show ?thesis
  proof (cases "y = 0")
    case True
    with \<open>x = 0\<close> show ?thesis by simp
  next
    case False
    with assms True have "0 < y" by simp
    then show ?thesis
      using rval_nonneg [of y] by (simp add: True round_double_rval)
  qed
next
  case False
  with assms have x: "0 < x" and y: "0 < y" by auto
  from rval_mono [OF x assms(2)] rval_nonneg [of x] rval_nonneg [of y] x y
  show ?thesis
    by (simp add: round_double_rval)
qed

section \<open>Sums and means of non-negative floats are monotone\<close>

lemma fnn_cases: "fnn w \<longleftrightarrow> (\<exists>x. w = Fin x \<and> 0 \<le> x) \<or> w = PosInf"
  by (cases w) (auto simp: fnn_def)

lemma round_double_fnn: "0 \<le> x \<Longrightarrow> fnn (round_double x)"
  using round_double_mono [of 0 x] by (simp add: fnn_def)

lemma fle_PosInf: "fnn w \<Longrightarrow> fle w PosInf"
  by (auto simp: fnn_cases)

lemma fle_refl: "fnn w \<Longrightarrow> fle w w"
  by (auto simp: fnn_cases)

lemma fnn_fle: "fnn a \<Longrightarrow> fle a b \<Longrightarrow> fnn b"
  by (cases a; cases b) (auto simp: fnn_def)

lemma fadd_fnn: "fnn a \<Longrightarrow> fnn b \<Longrightarrow> fnn (fadd a b)"
proof -
  assume "fnn a" "fnn b"
  then consider x y where "a = Fin x" "b = Fin y" "0 \<le> x" "0 \<le> y" | "a = PosInf \<or> b = PosInf"
    by (auto simp: fnn_cases)
  then show "fnn (fadd a b)"
  proof cases
    case 1
    then show ?thesis by (simp add: round_double_fnn)
  next
    case 2
    with \<open>fnn a\<close> \<open>fnn b\<close> show ?thesis
      by (auto simp: fnn_cases)
  qed
qed

lemma fadd_mono:
  assumes "fnn a" and "fnn b" and "fle a a'" and "fle b b'"
  shows "fle (fadd a b) (fadd a' b')"
proof -
  from assms have a': "fnn a'" and b': "fnn b'"
    by (auto intro: fnn_fle)
  consider (fin) x y x' y' where "a = Fin x" "b = Fin y" "a' = Fin x'" "b' = Fin y'"
    | (inf) "a' = PosInf \<or> b' = PosInf"
    using assms a' b' by (auto simp: fnn_cases)
  then show ?thesis
  proof cases
    case fin
    with assms show ?thesis
      by (auto simp: fnn_cases intro: round_double_mono)
  next
    case inf
    then have "fadd a' b' = PosInf"
      using a' b' by (auto simp: fnn_cases)
    with fadd_fnn [OF assms(1,2)] show ?thesis
      by (simp add: fle_PosInf)
  qed
qed

lemma foldl_fadd_mono:
  assumes "fnn s" and "fle s s'" and "list_all fnn xs" and "list_all2 fle xs ys"
  shows "fle (foldl fadd s xs) (foldl fadd s' ys) \<and> fnn (foldl fadd s xs)"
  using assms(4,1,2,3)
proof (induction xs ys arbitrary: s s' rule: list_all2_induct)
  case Nil
  then show ?case by simp
next
  case (Cons x xs y ys)
  have "fle (fadd s x) (fadd s' y)"
    using Cons.prems Cons.hyps(1) by (intro fadd_mono) auto
  moreover have "fnn (fadd s x)"
    using Cons.prems by (intro fadd_fnn) auto
  ultimately show ?case
    using Cons.IH [of "fadd s x" "fadd s' y"] Cons.prems by simp
qed

lemma add_block_mono:
  assumes "list_all2 fle r r'" and "list_all2 fle b b'" and "list_all fnn r" and "list_all fnn b"
  shows "list_all2 fle (add_block r b) (add_block r' b') \<and> list_all fnn (add_block r b)"
  using assms
proof (induction r r' arbitrary: b b' rule: list_all2_induct)
  case Nil
  then show ?case by simp
next
  case (Cons x r y r')
  show ?case
  proof (cases b)
    case Nil
    with Cons.prems show ?thesis by simp
  next
    case (Cons z zs)
    with Cons.prems(1) obtain z' zs' where b': "b' = z' # zs'" "fle z z'" "list_all2 fle zs zs'"
      by (cases b') auto
    from Cons.prems(3) Cons have "fnn z" "list_all fnn zs" by auto
    with Cons.hyps(1) Cons.prems(2) b' Cons.IH [of zs zs'] Cons show ?thesis
      by (auto intro: fadd_mono fadd_fnn)
  qed
qed

lemma length_add_block: "length (add_block r b) = min (length r) (length b)"
  by (induction r b rule: add_block.induct) auto

lemma list_all_take: "list_all P xs \<Longrightarrow> list_all P (take n xs)"
  by (auto simp: list_all_iff dest: in_set_takeD)

lemma list_all_drop: "list_all P xs \<Longrightarrow> list_all P (drop n xs)"
  by (auto simp: list_all_iff dest: in_set_dropD)

lemma unrolled_mono:
  assumes "list_all2 fle r r'" and "list_all2 fle rest rest'"
    and "list_all fnn r" and "list_all fnn rest"
  shows "list_all2 fle (fst (unrolled r rest)) (fst (unrolled r' rest')) \<and>
         list_all2 fle (snd (unrolled r rest)) (snd (unrolled r' rest')) \<and>
         list_all fnn (fst (unrolled r rest)) \<and> list_all fnn (snd (unrolled r rest))"
  using assms
proof (induction r rest arbitrary: r' rest' rule: unrolled.induct)
  case (1 r rest)
  from "1.prems"(2) have len: "length rest' = length rest"
    by (simp add: list_all2_lengthD)
  show ?case
  proof (cases "length rest < 8")
    case True
    with len "1.prems" show ?thesis
      by (simp add: unrolled.simps [of r rest] unrolled.simps [of r' rest'])
  next
    case False
    have blk: "list_all2 fle (add_block r (take 8 rest)) (add_block r' (take 8 rest'))"
      "list_all fnn (add_block r (take 8 rest))"
      using add_block_mono [of r r' "take 8 rest" "take 8 rest'"] "1.prems"
      by (simp_all add: list_all2_takeI list_all_take)
    have rest: "list_all2 fle (drop 8 rest) (drop 8 rest')" "list_all fnn (drop 8 rest)"
      using "1.prems" by (simp_all add: list_all2_dropI list_all_drop)
    from "1.IH" [OF False blk(1) rest(1) blk(2) rest(2)] False len show ?thesis
      by (simp add: unrolled.simps [of r rest] unrolled.simps [of r' rest'])
  qed
qed

lemma length_unrolled:
  "length r = 8 \<Longrightarrow> length (fst (unrolled r rest)) = 8"
proof (induction r rest rule: unrolled.induct)
  case (1 r rest)
  show ?case
  proof (cases "length rest < 8")
    case True
    with "1.prems" show ?thesis by (simp add: unrolled.simps [of r rest])
  next
    case False
    with "1.prems" have "length (add_block r (take 8 rest)) = 8"
      by (simp add: length_add_block)
    from "1.IH" [OF False this] False show ?thesis
      by (simp add: unrolled.simps [of r rest])
  qed
qed

lemma add_pairs_mono:
  assumes "list_all2 fle r r'" and "list_all fnn r" and "length r = 8"
  shows "fle (add_pairs r) (add_pairs r') \<and> fnn (add_pairs r)"
proof -
  have le: "fle (r ! i) (r' ! i)" if "i < 8" for i
    using assms(1,3) that by (simp add: list_all2_nthD)
  have nn: "fnn (r ! i)" if "i < 8" for i
    using assms(2,3) that by (simp add: list_all_length)
  show ?thesis
    unfolding add_pairs_def
    by (intro conjI fadd_mono fadd_fnn le nn) simp_all
qed

lemma pairwise_sum_mono:
  assumes "list_all2 fle a a'" and "list_all fnn a"
  shows "fle (pairwise_sum a) (pairwise_sum a') \<and> fnn (pairwise_sum a)"
  using assms
proof (induction a arbitrary: a' rule: pairwise_sum.induct)
  case (1 a)
  from "1.prems"(1) have len: "length a' = length a"
    by (simp add: list_all2_lengthD)
  consider (short) "length a < 8" | (block) "\<not> length a < 8" "length a \<le> 128"
    | (split) "\<not> length a < 8" "\<not> length a \<le> 128"
    by linarith
  then show ?case
  proof cases
    case short
    with len foldl_fadd_mono [of "Fin 0" "Fin 0" a a'] "1.prems" show ?thesis
      by (simp add: pairwise_sum.simps [of a] pairwise_sum.simps [of a'] fnn_def)
  next
    case block
    let ?u = "unrolled (take 8 a) (drop 8 a)"
    let ?u' = "unrolled (take 8 a') (drop 8 a')"
    have u: "list_all2 fle (fst ?u) (fst ?u')" "list_all2 fle (snd ?u) (snd ?u')"
      "list_all fnn (fst ?u)" "list_all fnn (snd ?u)"
      using unrolled_mono [of "take 8 a" "take 8 a'" "drop 8 a" "drop 8 a'"] "1.prems"
      by (simp_all add: list_all2_takeI list_all2_dropI list_all_take list_all_drop)
    have "length (fst ?u) = 8"
      using block(1) by (intro length_unrolled) simp
    with add_pairs_mono [OF u(1) u(3)]
    have p: "fle (add_pairs (fst ?u)) (add_pairs (fst ?u'))" "fnn (add_pairs (fst ?u))"
      by simp_all
    from foldl_fadd_mono [OF p(2) p(1) u(4) u(2)] block len show ?thesis
      by (simp add: pairwise_sum.simps [of a] pairwise_sum.simps [of a'] case_prod_beta)
  next
    case split
    define n2 where "n2 = length a div 2 - (length a div 2) mod 8"
    have l: "fle (pairwise_sum (take n2 a)) (pairwise_sum (take n2 a'))"
      "fnn (pairwise_sum (take n2 a))"
      using "1.IH"(1) [OF split n2_def, of "take n2 a'"] "1.prems"
      by (simp_all add: list_all2_takeI list_all_take)
    have r: "fle (pairwise_sum (drop n2 a)) (pairwise_sum (drop n2 a'))"
      "fnn (pairwise_sum (drop n2 a))"
      using "1.IH"(2) [OF split n2_def, of "drop n2 a'"] "1.prems"
      by (simp_all add: list_all2_dropI list_all_drop)
    from fadd_mono [OF l(2) r(2) l(1) r(1)] fadd_fnn [OF l(2) r(2)] split len show ?thesis
      by (simp add: pairwise_sum.simps [of a] pairwise_sum.simps [of a'] n2_def Let_def)
  qed
qed

section \<open>Bounds on the score\<close>

lemma fdiv_mono:
  assumes "fnn a" and "fle a a'" and "0 < c"
  shows "fle (fdiv a (Fin c)) (fdiv a' (Fin c))"
proof -
  from assms(1,2) have a': "fnn a'" by (rule fnn_fle)
  consider x x' where "a = Fin x" "a' = Fin x'" "0 \<le> x" "x \<le> x'" | "a' = PosInf"
    using assms(1,2) a' by (auto simp: fnn_cases)
  then show ?thesis
  proof cases
    case 1
    with assms(3) have "0 \<le> x / c" "x / c \<le> x' / c"
      by (simp_all add: divide_right_mono)
    then have "fle (round_double (x / c)) (round_double (x' / c))"
      by (rule round_double_mono)
    with 1 assms(3) show ?thesis by simp
  next
    case 2
    have "fnn (fdiv a (Fin c))"
    proof (cases a)
      case (Fin x)
      with assms(1) have "0 \<le> x / c"
        using assms(3) by (simp add: fnn_def)
      then have "fnn (round_double (x / c))" by (rule round_double_fnn)
      with Fin assms(3) show ?thesis by simp
    next
      case PosInf
      with assms(3) show ?thesis by (simp add: inf_of_def fnn_def)
    qed (use assms(1) in \<open>simp_all add: fnn_def\<close>)
    with 2 assms(3) show ?thesis
      by (simp add: inf_of_def fle_PosInf)
  qed
qed

lemma np_mean_mono:
  assumes "list_all2 fle xs ys" and "list_all fnn xs" and "xs \<noteq> []" and "length xs < 2 ^ 53"
  shows "fle (np_mean xs) (np_mean ys)"
proof -
  from assms(1) have len: "length ys = length xs"
    by (simp add: list_all2_lengthD)
  from pairwise_sum_mono [OF assms(1,2)]
  have p: "fle (pairwise_sum xs) (pairwise_sum ys)" "fnn (pairwise_sum xs)"
    by simp_all
  have z: "fnn (Fin 0)" "fle (Fin 0) (Fin 0)"
    by (simp_all add: fnn_def)
  have s: "fle (np_sum xs) (np_sum ys)" "fnn (np_sum xs)"
    unfolding np_sum_def
    by (rule fadd_mono [OF z(1) p(2) z(2) p(1)], rule fadd_fnn [OF z(1) p(2)])
  have c: "round_double (real (length xs)) = Fin (real (length xs))"
    using assms(4) by (rule round_double_nat)
  have "0 < real (length xs)"
    using assms(3) by simp
  from fdiv_mono [OF s(2) s(1) this] show ?thesis
    by (simp add: np_mean_def len c)
qed

lemma amplify_bounds:
  assumes "is_double x" and "0 \<le> x"
  shows "fle (Fin x) (amplify t x) \<and> fle (amplify t x) (fmul (Fin x) float_1_6)"
proof -
  let ?c = "3602879701896397 / 2251799813685248 :: real"
  have "x * 1 \<le> x * ?c"
    using assms(2) by (intro mult_left_mono) simp_all
  then have "fle (round_double x) (round_double (x * ?c))"
    using assms(2) by (intro round_double_mono) simp_all
  then have up: "fle (Fin x) (fmul (Fin x) float_1_6)"
    using assms(1) by (simp add: is_double_def float_1_6_value)
  have "fnn (fmul (Fin x) float_1_6)"
    using assms(2) by (simp add: float_1_6_value round_double_fnn)
  then have "fle (fmul (Fin x) float_1_6) (fmul (Fin x) float_1_6)"
    by (rule fle_refl)
  with up show ?thesis
    by (simp add: amplify_def)
qed

text \<open>
  C10, as the code has it. When the predictions of a route are non-negative floats, its
  score is at least the mean of the predictions and at most the mean of the predictions
  all multiplied by 1.6, in the arithmetic of the floats.
\<close>

theorem score_between_means:
  assumes "predict_route pf m route = Inr P" and "list_all is_double P"
    and "list_all fnn (map Fin P)" and "length P < 2 ^ 53"
  shows "fle (np_mean (map Fin P)) (score_one pf m route) \<and>
         fle (score_one pf m route) (np_mean (all_amplified P))"
proof -
  from predict_route_nonempty [OF assms(1)] have ne: "P \<noteq> []" .
  let ?t = "quantile_f64 85 P"
  have pos: "0 \<le> x" if "x \<in> set P" for x
    using that assms(3) by (auto simp: list_all_iff fnn_def)
  have b: "fle (Fin x) (amplify ?t x) \<and> fle (amplify ?t x) (fmul (Fin x) float_1_6)"
    if "x \<in> set P" for x
    using that assms(2) pos by (intro amplify_bounds) (auto simp: list_all_iff)
  have lo: "list_all2 fle (map Fin P) (map (amplify ?t) P)"
    using b by (simp add: list_all2_map1 list_all2_map2 list_all2_same)
  have hi: "list_all2 fle (map (amplify ?t) P) (all_amplified P)"
    using b by (simp add: all_amplified_def list_all2_map1 list_all2_map2 list_all2_same)
  have nn2: "list_all fnn (map (amplify ?t) P)"
  proof -
    have "fnn (amplify ?t x)" if "x \<in> set P" for x
    proof -
      from pos [OF that] have "fnn (Fin x)" by (simp add: fnn_def)
      with b [OF that] show ?thesis by (auto intro: fnn_fle)
    qed
    then show ?thesis by (simp add: list_all_iff)
  qed
  have "fle (np_mean (map Fin P)) (np_mean (map (amplify ?t) P))"
    using lo assms(3) ne assms(4) by (intro np_mean_mono) simp_all
  moreover have "fle (np_mean (map (amplify ?t) P)) (np_mean (all_amplified P))"
    using hi nn2 ne assms(4) by (intro np_mean_mono) simp_all
  ultimately show ?thesis
    using score_one_predicted [OF assms(1)] by (simp add: spec_route_score_def penalized_def)
qed

theorem score_between_means_witness:
  "predict_route no_parse lat_model (JArr [JArr [JInt 1, JInt 0], JArr [JInt 5, JInt 2]]) = Inr [1, 10] \<and>
   list_all is_double [1, 10] \<and> list_all fnn (map Fin [1, 10]) \<and>
   length [1, 10 :: real] < 2 ^ 53 \<and>
   fle (np_mean (map Fin [1, 10]))
     (score_one no_parse lat_model (JArr [JArr [JInt 1, JInt 0], JArr [JInt 5, JInt 2]])) \<and>
   fle (score_one no_parse lat_model (JArr [JArr [JInt 1, JInt 0], JArr [JInt 5, JInt 2]]))
     (np_mean (all_amplified [1, 10]))"
proof -
  have p: "predict_route no_parse lat_model (JArr [JArr [JInt 1, JInt 0], JArr [JInt 5, JInt 2]]) = Inr [1, 10]"
    by (simp add: run_route lat_model_def)
  have d: "list_all is_double [1, 10]"
    by (simp add: is_double_def round_double_numeral)
  have n: "list_all fnn (map Fin [1, 10])"
    by (simp add: fnn_def)
  have l: "length [1, 10 :: real] < 2 ^ 53"
    by simp
  from score_between_means [OF p d n l] p d n l show ?thesis
    by (simp only: simp_thms)
qed

text \<open>
  C10 as stated fails: three points that are all predicted 0.0625 have the mean 0.0625,
  and their score exceeds 1.6 times that mean, in floats and in exact arithmetic.
\<close>

theorem score_above_scaled_mean:
  "predict_route no_parse (const_model (1 / 16))
     (JArr [JArr [JInt 1, JInt 0], JArr [JInt 2, JInt 0], JArr [JInt 3, JInt 0]])
     = Inr [1 / 16, 1 / 16, 1 / 16] \<and>
   score_one no_parse (const_model (1 / 16))
     (JArr [JArr [JInt 1, JInt 0], JArr [JInt 2, JInt 0], JArr [JInt 3, JInt 0]])
     = Fin (7205759403792795 / 72057594037927936) \<and>
   fmul float_1_6 (np_mean (map Fin [1 / 16, 1 / 16, 1 / 16]))
     = Fin (3602879701896397 / 36028797018963968) \<and>
   \<not> fle (score_one no_parse (const_model (1 / 16))
            (JArr [JArr [JInt 1, JInt 0], JArr [JInt 2, JInt 0], JArr [JInt 3, JInt 0]]))
          (fmul float_1_6 (np_mean (map Fin [1 / 16, 1 / 16, 1 / 16]))) \<and>
   \<not> (7205759403792795 / 72057594037927936 :: real) \<le> 1.6 * ((1 / 16 + 1 / 16 + 1 / 16) / 3)"
proof -
  have p: "predict_route no_parse (const_model (1 / 16))
     (JArr [JArr [JInt 1, JInt 0], JArr [JInt 2, JInt 0], JArr [JInt 3, JInt 0]])
     = Inr [1 / 16, 1 / 16, 1 / 16]"
    by (simp add: run_route const_model_def)
  then have s: "score_one no_parse (const_model (1 / 16))
     (JArr [JArr [JInt 1, JInt 0], JArr [JInt 2, JInt 0], JArr [JInt 3, JInt 0]])
     = Fin (7205759403792795 / 72057594037927936)"
    by (rule score_one_value) (rule ev_sixteenths_s)
  have u: "fmul float_1_6 (np_mean (map Fin [1 / 16, 1 / 16, 1 / 16]))
     = Fin (3602879701896397 / 36028797018963968)"
    by (simp only: ev_sixteenths_m ev_sixteenths_u)
  have c: "\<not> fle (score_one no_parse (const_model (1 / 16))
            (JArr [JArr [JInt 1, JInt 0], JArr [JInt 2, JInt 0], JArr [JInt 3, JInt 0]]))
          (fmul float_1_6 (np_mean (map Fin [1 / 16, 1 / 16, 1 / 16])))"
    unfolding s u by simp
  have r: "\<not> (7205759403792795 / 72057594037927936 :: real) \<le> 1.6 * ((1 / 16 + 1 / 16 + 1 / 16) / 3)"
    by simp
  from p s u c r show ?thesis
    by (intro conjI)
qed

end
